theory Spec2Isabelle
  imports Complex_Main
begin

section \<open>C arithmetic\<close>

text \<open>
  The program is C. Values of type \<open>int\<close> are modelled as \<^typ>\<open>int\<close>. Sums, differences
  and products are written without wrap-around where the operands keep the result inside
  the range of \<open>int\<close>, and with it (\<open>wrap32\<close>) in the refill of the inventory, where they do
  not. Division and remainder follow C99 6.5.5: the quotient is truncated towards zero and
  the remainder takes the sign of the dividend, unlike \<open>div\<close> and \<open>mod\<close> of HOL, which round
  down.
\<close>

definition c_div :: "int \<Rightarrow> int \<Rightarrow> int" where
  "c_div a b = sgn a * sgn b * (\<bar>a\<bar> div \<bar>b\<bar>)"

definition c_mod :: "int \<Rightarrow> int \<Rightarrow> int" where
  "c_mod a b = sgn a * (\<bar>a\<bar> mod \<bar>b\<bar>)"

section \<open>Data model\<close>

text \<open>The struct \<open>ATM\<close>: the number of notes held of each denomination.\<close>

record ATM =
  note2000 :: int
  note500 :: int
  note200 :: int
  note100 :: int

text \<open>
  The invariant of the inventory in the specification: no count is negative. On such an
  inventory every product and difference of \<open>calculateDenominations\<close> and of the debit in
  \<open>withdrawCash\<close> stays inside the range of \<open>int\<close>, so that the model, which writes them
  without wrap-around, is the code.
\<close>

definition nonneg_inventory :: "ATM \<Rightarrow> bool" where
  "nonneg_inventory atm \<longleftrightarrow>
     0 \<le> note2000 atm \<and> 0 \<le> note500 atm \<and> 0 \<le> note200 atm \<and> 0 \<le> note100 atm"

text \<open>
  \<open>calculateDenominations\<close> writes through five \<open>int\<close> pointers. The record below holds
  the five cells after the call, and the order in which the call read and wrote the cell
  \<open>*possible\<close>.
\<close>

datatype access = Read_possible | Write_possible

record denominations =
  n2000 :: int
  n500 :: int
  n200 :: int
  n100 :: int
  possible :: int
  accesses :: "access list"

section \<open>calculateDenominations\<close>

text \<open>
  The three nested \<open>for\<close> loops of the backtracking part, innermost first. Each loop guard is
  \<open>r >= 0 && !(*possible)\<close>: by short-circuit evaluation the cell \<open>*possible\<close> is read
  exactly when \<open>r >= 0\<close> holds. Inside the loops \<open>*possible\<close> is assigned only immediately
  before \<open>return\<close>, so every guard reads the value \<open>possible0\<close> that the cell held when the
  function was entered. A loop returns the combination at which the function returned, if
  any, and the accesses to \<open>*possible\<close> it made.
\<close>

function loop200 ::
  "int \<Rightarrow> ATM \<Rightarrow> int \<Rightarrow> int \<Rightarrow> int \<Rightarrow> int \<Rightarrow> (int \<times> int \<times> int \<times> int) option \<times> access list"
where
  "loop200 amount atm possible0 r2000 r500 r200 =
    (if \<not> r200 \<ge> 0 then (None, [])
     else if \<not> possible0 = 0 then (None, [Read_possible])
     else
       let rem = amount - (r2000 * 2000 + r500 * 500 + r200 * 200);
           continue = (case loop200 amount atm possible0 r2000 r500 (r200 - 1) of
                         (found, evs) \<Rightarrow> (found, Read_possible # evs))
       in if rem < 0 then continue
          else
            let need100 = c_div rem 100
            in if c_mod rem 100 \<noteq> 0 then continue
               else if need100 \<le> note100 atm
                 then (Some (r2000, r500, r200, need100), [Read_possible, Write_possible])
                 else continue)"
  by pat_completeness auto
termination
  by (relation "measure (\<lambda>(amount, atm, possible0, r2000, r500, r200). nat (r200 + 1))") auto

function loop500 ::
  "int \<Rightarrow> ATM \<Rightarrow> int \<Rightarrow> int \<Rightarrow> int \<Rightarrow> int \<Rightarrow> (int \<times> int \<times> int \<times> int) option \<times> access list"
where
  "loop500 amount atm possible0 backup200 r2000 r500 =
    (if \<not> r500 \<ge> 0 then (None, [])
     else if \<not> possible0 = 0 then (None, [Read_possible])
     else
       (case loop200 amount atm possible0 r2000 r500 backup200 of
          (Some found, evs) \<Rightarrow> (Some found, Read_possible # evs)
        | (None, evs) \<Rightarrow>
            (case loop500 amount atm possible0 backup200 r2000 (r500 - 1) of
               (found, evs') \<Rightarrow> (found, Read_possible # evs @ evs'))))"
  by pat_completeness auto
termination
  by (relation "measure (\<lambda>(amount, atm, possible0, backup200, r2000, r500). nat (r500 + 1))") auto

function loop2000 ::
  "int \<Rightarrow> ATM \<Rightarrow> int \<Rightarrow> int \<Rightarrow> int \<Rightarrow> int \<Rightarrow> (int \<times> int \<times> int \<times> int) option \<times> access list"
where
  "loop2000 amount atm possible0 backup500 backup200 r2000 =
    (if \<not> r2000 \<ge> 0 then (None, [])
     else if \<not> possible0 = 0 then (None, [Read_possible])
     else
       (case loop500 amount atm possible0 backup200 r2000 backup500 of
          (Some found, evs) \<Rightarrow> (Some found, Read_possible # evs)
        | (None, evs) \<Rightarrow>
            (case loop2000 amount atm possible0 backup500 backup200 (r2000 - 1) of
               (found, evs') \<Rightarrow> (found, Read_possible # evs @ evs'))))"
  by pat_completeness auto
termination
  by (relation "measure (\<lambda>(amount, atm, possible0, backup500, backup200, r2000). nat (r2000 + 1))") auto

text \<open>
  The function itself. \<open>possible0\<close> is the content of \<open>*possible\<close> at entry: the only caller,
  \<open>withdrawCash\<close>, passes the address of a local variable it never initialised, so
  \<open>possible0\<close> can be any value. The greedy pass is written level by level as in the source.
  Products and differences are written without wrap-around: the model is the code on
  every inventory without negative counts, where none of them leaves the range of \<open>int\<close>
  (section Ranges); once a count is negative, \<open>use * 2000\<close> can overflow in the code.
\<close>

definition calculateDenominations :: "int \<Rightarrow> ATM \<Rightarrow> int \<Rightarrow> denominations" where
  "calculateDenominations amount atm possible0 =
    (let remaining = amount;
         use = c_div remaining 2000;
         use = (if use > note2000 atm then note2000 atm else use);
         g2000 = use;
         remaining = remaining - use * 2000;
         use = c_div remaining 500;
         use = (if use > note500 atm then note500 atm else use);
         g500 = use;
         remaining = remaining - use * 500;
         use = c_div remaining 200;
         use = (if use > note200 atm then note200 atm else use);
         g200 = use;
         remaining = remaining - use * 200;
         use = c_div remaining 100;
         use = (if use > note100 atm then note100 atm else use);
         g100 = use;
         remaining = remaining - use * 100
     in
       if remaining = 0
       then \<lparr>n2000 = g2000, n500 = g500, n200 = g200, n100 = g100, possible = 1,
              accesses = [Write_possible]\<rparr>
       else
         let backup2000 = g2000; backup500 = g500; backup200 = g200; backup100 = g100
         in case loop2000 amount atm possible0 backup500 backup200 backup2000 of
              (Some (r2000, r500, r200, need100), evs) \<Rightarrow>
                \<lparr>n2000 = r2000, n500 = r500, n200 = r200, n100 = need100, possible = 1,
                 accesses = evs\<rparr>
            | (None, evs) \<Rightarrow>
                \<lparr>n2000 = backup2000, n500 = backup500, n200 = backup200, n100 = backup100,
                 possible = 0, accesses = evs @ [Write_possible]\<rparr>)"

text \<open>
  Names for the quantities of the greedy pass, used to state and prove its properties:
  the count chosen at one level, the four counts, and what is left of the amount.
  Lemma \<open>calculateDenominations_greedy\<close> ties them to the function.
\<close>

definition level :: "int \<Rightarrow> int \<Rightarrow> int \<Rightarrow> int" where
  "level remaining d avail = (let use = c_div remaining d in if use > avail then avail else use)"

definition greedy2000 :: "int \<Rightarrow> ATM \<Rightarrow> int" where
  "greedy2000 amount atm = level amount 2000 (note2000 atm)"

definition greedy500 :: "int \<Rightarrow> ATM \<Rightarrow> int" where
  "greedy500 amount atm = level (amount - greedy2000 amount atm * 2000) 500 (note500 atm)"

definition greedy200 :: "int \<Rightarrow> ATM \<Rightarrow> int" where
  "greedy200 amount atm =
     level (amount - greedy2000 amount atm * 2000 - greedy500 amount atm * 500) 200 (note200 atm)"

definition greedy100 :: "int \<Rightarrow> ATM \<Rightarrow> int" where
  "greedy100 amount atm =
     level (amount - greedy2000 amount atm * 2000 - greedy500 amount atm * 500
              - greedy200 amount atm * 200) 100 (note100 atm)"

definition greedy_remaining :: "int \<Rightarrow> ATM \<Rightarrow> int" where
  "greedy_remaining amount atm =
     amount - greedy2000 amount atm * 2000 - greedy500 amount atm * 500
       - greedy200 amount atm * 200 - greedy100 amount atm * 100"

text \<open>The test made in the body of the innermost loop on a combination of counts.\<close>

definition hit :: "int \<Rightarrow> ATM \<Rightarrow> int \<Rightarrow> int \<Rightarrow> int \<Rightarrow> bool" where
  "hit amount atm r2000 r500 r200 =
     (let rem = amount - (r2000 * 2000 + r500 * 500 + r200 * 200)
      in \<not> rem < 0 \<and> c_mod rem 100 = 0 \<and> c_div rem 100 \<le> note100 atm)"

text \<open>
  A plan is feasible for an amount and an inventory when its counts are non-negative, none
  exceeds the inventory, and the notes sum to the amount.
\<close>

definition feasible :: "int \<Rightarrow> ATM \<Rightarrow> int \<times> int \<times> int \<times> int \<Rightarrow> bool" where
  "feasible amount atm plan =
     (case plan of (a, b, c, d) \<Rightarrow>
        0 \<le> a \<and> a \<le> note2000 atm \<and> 0 \<le> b \<and> b \<le> note500 atm \<and>
        0 \<le> c \<and> c \<le> note200 atm \<and> 0 \<le> d \<and> d \<le> note100 atm \<and>
        2000 * a + 500 * b + 200 * c + 100 * d = amount)"

section \<open>The solver as the specification words it\<close>

text \<open>
  The reference algorithm, written from the specification (section 4.2) and not from the
  code: a greedy pass taking \<open>min (floor (remaining / denomination)) available\<close> notes per
  level in the order 2000, 500, 200, 100; the greedy plan if nothing remains; otherwise the
  first combination, in nested descending iteration of the counts of the three largest
  denominations from their greedy counts down to 0, whose residual is non-negative,
  divisible by 100 and covered by the available 100-notes; otherwise \<open>Infeasible\<close> with the
  greedy figures.
\<close>

datatype solution = Plan int int int int | Infeasible int int int int

definition spec_candidates :: "int \<Rightarrow> int \<Rightarrow> int \<Rightarrow> (int \<times> int \<times> int) list" where
  "spec_candidates g2000 g500 g200 =
     concat (map (\<lambda>a. concat (map (\<lambda>b. map (\<lambda>c. (a, b, c)) (rev [0..g200])) (rev [0..g500])))
       (rev [0..g2000]))"

definition spec_residual :: "int \<Rightarrow> int \<times> int \<times> int \<Rightarrow> int" where
  "spec_residual amount k = (case k of (a, b, c) \<Rightarrow> amount - (2000 * a + 500 * b + 200 * c))"

definition spec_accepts :: "int \<Rightarrow> ATM \<Rightarrow> int \<times> int \<times> int \<Rightarrow> bool" where
  "spec_accepts amount atm k =
     (0 \<le> spec_residual amount k \<and> 100 dvd spec_residual amount k \<and>
      spec_residual amount k div 100 \<le> note100 atm)"

definition spec_solve :: "int \<Rightarrow> ATM \<Rightarrow> solution" where
  "spec_solve amount atm =
     (let t2000 = min (amount div 2000) (note2000 atm);
          left2000 = amount - t2000 * 2000;
          t500 = min (left2000 div 500) (note500 atm);
          left500 = left2000 - t500 * 500;
          t200 = min (left500 div 200) (note200 atm);
          left200 = left500 - t200 * 200;
          t100 = min (left200 div 100) (note100 atm);
          left100 = left200 - t100 * 100
      in if left100 = 0 then Plan t2000 t500 t200 t100
         else (case find (spec_accepts amount atm) (spec_candidates t2000 t500 t200) of
                 Some k \<Rightarrow>
                   (case k of (a, b, c) \<Rightarrow> Plan a b c (spec_residual amount k div 100))
               | None \<Rightarrow> Infeasible t2000 t500 t200 t100))"

text \<open>The plan a candidate stands for: its residual is paid in 100-notes.\<close>

definition found_of :: "int \<Rightarrow> int \<times> int \<times> int \<Rightarrow> int \<times> int \<times> int \<times> int" where
  "found_of amount k = (case k of (a, b, c) \<Rightarrow> (a, b, c, spec_residual amount k div 100))"

text \<open>What the caller sees of the five output cells, as a \<^typ>\<open>solution\<close>.\<close>

definition solution_of :: "denominations \<Rightarrow> solution" where
  "solution_of r =
     (if possible r \<noteq> 0 then Plan (n2000 r) (n500 r) (n200 r) (n100 r)
      else Infeasible (n2000 r) (n500 r) (n200 r) (n100 r))"

section \<open>Accounts and withdrawCash\<close>

text \<open>
  A \<open>double\<close> is modelled as the real number it stands for. The result of an addition or
  a subtraction of doubles is the exact result rounded to the nearest double, ties to the
  even significand (IEEE 754 binary64: significands of 53 bits, exponents from -1022):
  \<open>round_double\<close>. Infinities, NaN and results beyond the largest double are outside the
  model; the program converts to \<open>int\<close>, which is undefined from \<open>2^31\<close> on, before it
  computes with a balance.
\<close>

text \<open>The floor of the binary logarithm of a positive whole number.\<close>

function ilog2 :: "int \<Rightarrow> int" where
  "ilog2 n = (if n < 2 then 0 else 1 + ilog2 (n div 2))"
  by pat_completeness auto
termination
  by (relation "measure nat") auto

definition pow2 :: "int \<Rightarrow> real" where
  "pow2 k = (if 0 \<le> k then 2 ^ nat k else 1 / 2 ^ nat (- k))"

text \<open>The binary exponent \<open>e\<close> of a number other than zero: \<open>2^e \<le> |x| < 2^(e+1)\<close>.\<close>

definition exponent :: "real \<Rightarrow> int" where
  "exponent x =
     (if 1 \<le> \<bar>x\<bar> then ilog2 \<lfloor>\<bar>x\<bar>\<rfloor> else - (ilog2 (\<lceil>1 / \<bar>x\<bar>\<rceil> - 1) + 1))"

text \<open>The nearest whole number, a tie going to the even one.\<close>

definition round_even :: "real \<Rightarrow> int" where
  "round_even y =
     (let f = \<lfloor>y\<rfloor>; d = y - of_int f
      in if d < 1 / 2 then f else if 1 / 2 < d then f + 1 else if even f then f else f + 1)"

definition round_double :: "real \<Rightarrow> real" where
  "round_double x =
     (if x = 0 then 0
      else let u = pow2 (max (exponent x) (- 1022) - 52)
           in of_int (round_even (x / u)) * u)"

text \<open>A real number is a double when rounding leaves it as it is.\<close>

definition is_double :: "real \<Rightarrow> bool" where
  "is_double x \<longleftrightarrow> round_double x = x"


text \<open>
  The struct \<open>Account\<close>. The field \<open>balance\<close> is a \<open>double\<close>, modelled as the real number it
  stands for.
\<close>

record Account =
  accountNumber :: int
  pin :: int
  balance :: real
  name :: string
  loginAttempts :: int
  locked :: int

text \<open>The struct \<open>Transaction\<close> without its time stamp, which comes from the clock.\<close>

record Transaction =
  txn_accountNumber :: int
  txn_type :: string
  txn_amount :: real
  txn_remainingBalance :: real

text \<open>
  The conversion \<open>(int)x\<close> of a \<open>double\<close>: the fractional part is discarded, and the
  behaviour is undefined (\<open>None\<close>) when the integral part is not a value of \<open>int\<close>
  (C99 6.3.1.4).
\<close>

definition int_of_double :: "real \<Rightarrow> int option" where
  "int_of_double x =
     (if - 2147483649 < x \<and> x < 2147483648
      then Some (if 0 \<le> x then \<lfloor>x\<rfloor> else \<lceil>x\<rceil>) else None)"

text \<open>The ways \<open>withdrawCash\<close> ends, named after the message it prints.\<close>

datatype withdrawal =
    Invalid_amount
  | Not_multiple_of_100
  | Insufficient_balance
  | ATM_not_enough_cash
  | Cannot_dispense
  | Cancelled
  | Successful

text \<open>
  \<open>damount\<close> is the number \<open>safeScanDouble\<close> returned, \<open>confirm\<close> the number \<open>safeScanInt\<close>
  returns at the confirmation prompt, and \<open>possible0\<close> the content of the uninitialised
  local \<open>possible\<close>. The result is how the call ended, the account and the inventory after
  it, and the transactions it recorded; \<open>None\<close> when a conversion to \<open>int\<close> is undefined.
  The constant \<open>0.0001\<close> is the double nearest to it, and the sum \<open>acc->balance + 0.0001\<close>
  and the difference \<open>acc->balance -= amount\<close> are rounded. The total is computed in
  \<open>long\<close>, which holds it. Writing the files is not modelled.
\<close>

definition withdrawCash ::
  "Account \<Rightarrow> ATM \<Rightarrow> real \<Rightarrow> int \<Rightarrow> int \<Rightarrow> (withdrawal \<times> Account \<times> ATM \<times> Transaction list) option"
where
  "withdrawCash acc atm damount confirm possible0 =
    (if damount \<le> 0 then Some (Invalid_amount, acc, atm, [])
     else
       case int_of_double damount of
         None \<Rightarrow> None
       | Some amount \<Rightarrow>
           if c_mod amount 100 \<noteq> 0 then Some (Not_multiple_of_100, acc, atm, [])
           else
             case int_of_double (round_double (balance acc + round_double 0.0001)) of
               None \<Rightarrow> None
             | Some funds \<Rightarrow>
                 if amount > funds then Some (Insufficient_balance, acc, atm, [])
                 else
                   let atmTotal = note2000 atm * 2000 + note500 atm * 500
                                    + note200 atm * 200 + note100 atm * 100
                   in if amount > atmTotal then Some (ATM_not_enough_cash, acc, atm, [])
                      else
                        let r = calculateDenominations amount atm possible0
                        in if possible r = 0 then Some (Cannot_dispense, acc, atm, [])
                           else if confirm = 0 then Some (Cancelled, acc, atm, [])
                           else
                             let acc' = acc\<lparr>balance := round_double (balance acc - of_int amount)\<rparr>;
                                 atm' = atm\<lparr>note2000 := note2000 atm - n2000 r,
                                            note500 := note500 atm - n500 r,
                                            note200 := note200 atm - n200 r,
                                            note100 := note100 atm - n100 r\<rparr>;
                                 t = \<lparr>txn_accountNumber = accountNumber acc',
                                      txn_type = ''Withdrawal'',
                                      txn_amount = of_int amount,
                                      txn_remainingBalance = balance acc'\<rparr>
                             in Some (Successful, acc', atm', [t]))"

section \<open>login\<close>

text \<open>\<open>findAccountIndex\<close>: the first index holding the account number; \<open>-1\<close> is \<open>None\<close>.\<close>

primrec findAccountIndex :: "Account list \<Rightarrow> int \<Rightarrow> nat option" where
  "findAccountIndex [] accNum = None"
| "findAccountIndex (a # as) accNum =
     (if accountNumber a = accNum then Some 0 else map_option Suc (findAccountIndex as accNum))"

text \<open>
  The \<open>for (;;)\<close> loop of \<open>login\<close> over the PINs typed in. It ends with a correct PIN
  (\<open>True\<close>) or by locking the account (\<open>False\<close>); with no input left it does not return.
\<close>

fun login_loop :: "Account \<Rightarrow> int list \<Rightarrow> (bool \<times> Account) option" where
  "login_loop acc [] = None"
| "login_loop acc (entered # rest) =
     (if entered = pin acc then Some (True, acc\<lparr>loginAttempts := 0\<rparr>)
      else
        let acc = acc\<lparr>loginAttempts := loginAttempts acc + 1\<rparr>;
            attemptsLeft = 3 - loginAttempts acc
        in if attemptsLeft > 0 then login_loop acc rest
           else Some (False, acc\<lparr>locked := 1\<rparr>))"

datatype login_result =
    Login_successful nat
  | Account_not_found
  | Account_is_locked
  | Locked_after_3_failed_attempts

text \<open>
  \<open>login\<close> on the account table, the account number typed in and the PINs typed in. Only
  \<open>Login_successful\<close> is the return value 1, with the index stored in \<open>*accIndex\<close>.
\<close>

definition login :: "Account list \<Rightarrow> int \<Rightarrow> int list \<Rightarrow> (login_result \<times> Account list) option" where
  "login accounts accNum pins =
    (case findAccountIndex accounts accNum of
       None \<Rightarrow> Some (Account_not_found, accounts)
     | Some idx \<Rightarrow>
         if locked (accounts ! idx) \<noteq> 0 then Some (Account_is_locked, accounts)
         else
           (case login_loop (accounts ! idx) pins of
              None \<Rightarrow> None
            | Some (ok, acc) \<Rightarrow>
                Some (if ok then Login_successful idx else Locked_after_3_failed_attempts,
                      accounts[idx := acc])))"

section \<open>adminMenu\<close>

text \<open>
  The sum of two \<open>int\<close> values as the usual two's-complement targets compute it: reduced
  into the range of \<open>int\<close>. (An overflowing signed addition is undefined in ISO C.)
\<close>

definition wrap32 :: "int \<Rightarrow> int" where
  "wrap32 x = (x + 2147483648) mod 4294967296 - 2147483648"

text \<open>
  Choice 2 of the menu, on the four numbers typed in. In \<open>calculateDenominations\<close> and
  \<open>withdrawCash\<close> no sum or product leaves the range of \<open>int\<close> on a non-negative inventory
  (lemmas \<open>greedy_in_range\<close> and \<open>plan_nonneg\<close>), so they are written without
  \<open>wrap32\<close>; here the operands are only known to be non-negative.
\<close>

definition adminMenu_refill :: "ATM \<Rightarrow> int \<Rightarrow> int \<Rightarrow> int \<Rightarrow> int \<Rightarrow> ATM" where
  "adminMenu_refill atm a b c d =
    (if a < 0 \<or> b < 0 \<or> c < 0 \<or> d < 0 then atm
     else atm\<lparr>note2000 := wrap32 (note2000 atm + a),
              note500 := wrap32 (note500 atm + b),
              note200 := wrap32 (note200 atm + c),
              note100 := wrap32 (note100 atm + d)\<rparr>)"

text \<open>Choice 4 of the menu, on the account number typed in.\<close>

definition adminMenu_unlock :: "Account list \<Rightarrow> int \<Rightarrow> Account list" where
  "adminMenu_unlock accounts accn =
    (case findAccountIndex accounts accn of
       None \<Rightarrow> accounts
     | Some idx \<Rightarrow> accounts[idx := (accounts ! idx)\<lparr>locked := 0, loginAttempts := 0\<rparr>])"

text \<open>
  The menu itself, on the numbers typed in: the admin PIN, then choices with their
  arguments until choice 5. Choices 1 and 3 only print. With no input left the menu does not
  return.
\<close>

fun adminMenu_loop :: "Account list \<times> ATM \<Rightarrow> int list \<Rightarrow> (Account list \<times> ATM) option" where
  "adminMenu_loop st [] = None"
| "adminMenu_loop st (choice # inputs) =
    (if choice = 1 then adminMenu_loop st inputs
     else if choice = 2 then
       (case inputs of
          a # b # c # d # inputs' \<Rightarrow>
            adminMenu_loop (fst st, adminMenu_refill (snd st) a b c d) inputs'
        | _ \<Rightarrow> None)
     else if choice = 3 then adminMenu_loop st inputs
     else if choice = 4 then
       (case inputs of
          accn # inputs' \<Rightarrow> adminMenu_loop (adminMenu_unlock (fst st) accn, snd st) inputs'
        | _ \<Rightarrow> None)
     else if choice = 5 then Some st
     else adminMenu_loop st inputs)"

definition ADMIN_PIN :: int where
  "ADMIN_PIN = 999999"

definition adminMenu :: "Account list \<times> ATM \<Rightarrow> int list \<Rightarrow> (Account list \<times> ATM) option" where
  "adminMenu st inputs =
    (case inputs of
       [] \<Rightarrow> None
     | entered # inputs' \<Rightarrow> if entered \<noteq> ADMIN_PIN then Some st else adminMenu_loop st inputs')"

section \<open>Properties of calculateDenominations\<close>

lemma calculateDenominations_greedy:
  "calculateDenominations amount atm p =
    (if greedy_remaining amount atm = 0
     then \<lparr>n2000 = greedy2000 amount atm, n500 = greedy500 amount atm,
           n200 = greedy200 amount atm, n100 = greedy100 amount atm, possible = 1,
           accesses = [Write_possible]\<rparr>
     else case loop2000 amount atm p (greedy500 amount atm) (greedy200 amount atm)
                 (greedy2000 amount atm) of
            (Some (r2000, r500, r200, need100), evs) \<Rightarrow>
              \<lparr>n2000 = r2000, n500 = r500, n200 = r200, n100 = need100, possible = 1,
               accesses = evs\<rparr>
          | (None, evs) \<Rightarrow>
              \<lparr>n2000 = greedy2000 amount atm, n500 = greedy500 amount atm,
               n200 = greedy200 amount atm, n100 = greedy100 amount atm,
               possible = 0, accesses = evs @ [Write_possible]\<rparr>)"
  unfolding calculateDenominations_def greedy_remaining_def greedy100_def greedy200_def
    greedy500_def greedy2000_def level_def Let_def
  by (rule refl)


declare loop200.simps [simp del] loop500.simps [simp del] loop2000.simps [simp del]

lemma loop200_stop:
  "r200 < 0 \<Longrightarrow> loop200 amount atm p r2000 r500 r200 = (None, [])"
  by (simp add: loop200.simps [of amount atm p r2000 r500 r200])

lemma loop200_flag:
  "0 \<le> r200 \<Longrightarrow> p \<noteq> 0 \<Longrightarrow> loop200 amount atm p r2000 r500 r200 = (None, [Read_possible])"
  by (simp add: loop200.simps [of amount atm p r2000 r500 r200])

lemma loop200_hit:
  "0 \<le> r200 \<Longrightarrow> hit amount atm r2000 r500 r200 \<Longrightarrow>
   loop200 amount atm 0 r2000 r500 r200 =
     (Some (r2000, r500, r200, c_div (amount - (r2000 * 2000 + r500 * 500 + r200 * 200)) 100),
      [Read_possible, Write_possible])"
  by (simp add: loop200.simps [of amount atm 0 r2000 r500 r200] hit_def Let_def)

lemma loop200_miss:
  "0 \<le> r200 \<Longrightarrow> \<not> hit amount atm r2000 r500 r200 \<Longrightarrow>
   loop200 amount atm 0 r2000 r500 r200 =
     (case loop200 amount atm 0 r2000 r500 (r200 - 1) of
        (found, evs) \<Rightarrow> (found, Read_possible # evs))"
  by (auto simp add: loop200.simps [of amount atm 0 r2000 r500 r200] hit_def Let_def)

lemma loop200_found:
  "fst (loop200 amount atm p r2000 r500 r200) = Some (a, b, c, d) \<Longrightarrow>
     p = 0 \<and> a = r2000 \<and> b = r500 \<and> 0 \<le> c \<and> c \<le> r200 \<and> hit amount atm a b c \<and>
     d = c_div (amount - (a * 2000 + b * 500 + c * 200)) 100"
proof (induction amount atm p r2000 r500 r200 rule: loop200.induct)
  case (1 amount atm p r2000 r500 r200)
  consider "r200 < 0" | "0 \<le> r200" "p \<noteq> 0" | "0 \<le> r200" "p = 0" "hit amount atm r2000 r500 r200"
    | "0 \<le> r200" "p = 0" "\<not> hit amount atm r2000 r500 r200"
    by linarith
  then show ?case
  proof cases
    case 1
    with "1.prems" show ?thesis by (simp add: loop200_stop)
  next
    case 2
    with "1.prems" show ?thesis by (simp add: loop200_flag)
  next
    case 3
    with "1.prems" show ?thesis by (auto simp add: loop200_hit)
  next
    case 4
    with "1.prems" have "fst (loop200 amount atm p r2000 r500 (r200 - 1)) = Some (a, b, c, d)"
      by (simp add: loop200_miss split: prod.splits)
    with "1.IH" 4 have "p = 0 \<and> a = r2000 \<and> b = r500 \<and> 0 \<le> c \<and> c \<le> r200 - 1 \<and>
        hit amount atm a b c \<and> d = c_div (amount - (a * 2000 + b * 500 + c * 200)) 100"
      by auto
    then show ?thesis by auto
  qed
qed


lemma loop500_stop:
  "r500 < 0 \<Longrightarrow> loop500 amount atm p b200 r2000 r500 = (None, [])"
  by (simp add: loop500.simps [of amount atm p b200 r2000 r500])

lemma loop500_flag:
  "0 \<le> r500 \<Longrightarrow> p \<noteq> 0 \<Longrightarrow> loop500 amount atm p b200 r2000 r500 = (None, [Read_possible])"
  by (simp add: loop500.simps [of amount atm p b200 r2000 r500])

lemma loop500_step:
  "0 \<le> r500 \<Longrightarrow>
   loop500 amount atm 0 b200 r2000 r500 =
     (case loop200 amount atm 0 r2000 r500 b200 of
        (Some found, evs) \<Rightarrow> (Some found, Read_possible # evs)
      | (None, evs) \<Rightarrow>
          (case loop500 amount atm 0 b200 r2000 (r500 - 1) of
             (found, evs') \<Rightarrow> (found, Read_possible # evs @ evs')))"
  by (simp add: loop500.simps [of amount atm 0 b200 r2000 r500])

lemma loop500_found:
  "fst (loop500 amount atm p b200 r2000 r500) = Some (a, b, c, d) \<Longrightarrow>
     p = 0 \<and> a = r2000 \<and> 0 \<le> b \<and> b \<le> r500 \<and> 0 \<le> c \<and> c \<le> b200 \<and> hit amount atm a b c \<and>
     d = c_div (amount - (a * 2000 + b * 500 + c * 200)) 100"
proof (induction amount atm p b200 r2000 r500 rule: loop500.induct)
  case (1 amount atm p b200 r2000 r500)
  consider "r500 < 0" | "0 \<le> r500" "p \<noteq> 0"
    | "0 \<le> r500" "p = 0" "fst (loop200 amount atm p r2000 r500 b200) = Some (a, b, c, d)"
    | "0 \<le> r500" "p = 0" "fst (loop200 amount atm p r2000 r500 b200) = None"
        "fst (loop500 amount atm p b200 r2000 (r500 - 1)) = Some (a, b, c, d)"
    using "1.prems"
    by (cases "r500 < 0"; cases "p = 0")
       (auto simp: loop500_stop loop500_flag loop500_step split: prod.splits option.splits)+
  then show ?case
  proof cases
    case 1
    with "1.prems" show ?thesis by (simp add: loop500_stop)
  next
    case 2
    with "1.prems" show ?thesis by (simp add: loop500_flag)
  next
    case 3
    from loop200_found [OF 3(3)] 3(1) show ?thesis by auto
  next
    case 4
    obtain evs where "loop200 amount atm p r2000 r500 b200 = (None, evs)"
      using 4(3) by (cases "loop200 amount atm p r2000 r500 b200") simp
    from "1.IH" [OF _ _ this [symmetric] refl 4(4)] 4(1,2)
    show ?thesis by auto
  qed
qed


lemma loop2000_stop:
  "r2000 < 0 \<Longrightarrow> loop2000 amount atm p b500 b200 r2000 = (None, [])"
  by (simp add: loop2000.simps [of amount atm p b500 b200 r2000])

lemma loop2000_flag:
  "0 \<le> r2000 \<Longrightarrow> p \<noteq> 0 \<Longrightarrow>
   loop2000 amount atm p b500 b200 r2000 = (None, [Read_possible])"
  by (simp add: loop2000.simps [of amount atm p b500 b200 r2000])

lemma loop2000_step:
  "0 \<le> r2000 \<Longrightarrow>
   loop2000 amount atm 0 b500 b200 r2000 =
     (case loop500 amount atm 0 b200 r2000 b500 of
        (Some found, evs) \<Rightarrow> (Some found, Read_possible # evs)
      | (None, evs) \<Rightarrow>
          (case loop2000 amount atm 0 b500 b200 (r2000 - 1) of
             (found, evs') \<Rightarrow> (found, Read_possible # evs @ evs')))"
  by (simp add: loop2000.simps [of amount atm 0 b500 b200 r2000])

lemma loop2000_found:
  "fst (loop2000 amount atm p b500 b200 r2000) = Some (a, b, c, d) \<Longrightarrow>
     p = 0 \<and> 0 \<le> a \<and> a \<le> r2000 \<and> 0 \<le> b \<and> b \<le> b500 \<and> 0 \<le> c \<and> c \<le> b200 \<and>
     hit amount atm a b c \<and> d = c_div (amount - (a * 2000 + b * 500 + c * 200)) 100"
proof (induction amount atm p b500 b200 r2000 rule: loop2000.induct)
  case (1 amount atm p b500 b200 r2000)
  consider "r2000 < 0" | "0 \<le> r2000" "p \<noteq> 0"
    | "0 \<le> r2000" "p = 0" "fst (loop500 amount atm p b200 r2000 b500) = Some (a, b, c, d)"
    | "0 \<le> r2000" "p = 0" "fst (loop500 amount atm p b200 r2000 b500) = None"
        "fst (loop2000 amount atm p b500 b200 (r2000 - 1)) = Some (a, b, c, d)"
    using "1.prems"
    by (cases "r2000 < 0"; cases "p = 0")
       (auto simp: loop2000_stop loop2000_flag loop2000_step split: prod.splits option.splits)+
  then show ?case
  proof cases
    case 1
    with "1.prems" show ?thesis by (simp add: loop2000_stop)
  next
    case 2
    with "1.prems" show ?thesis by (simp add: loop2000_flag)
  next
    case 3
    from loop500_found [OF 3(3)] 3(1) show ?thesis by auto
  next
    case 4
    obtain evs where "loop500 amount atm p b200 r2000 b500 = (None, evs)"
      using 4(3) by (cases "loop500 amount atm p b200 r2000 b500") simp
    from "1.IH" [OF _ _ this [symmetric] refl 4(4)] 4(1,2)
    show ?thesis by auto
  qed
qed

lemma loop2000_Some:
  assumes "loop2000 amount atm p b500 b200 r2000 = (Some (a, b, c, d), evs)"
  shows "p = 0" "0 \<le> a" "a \<le> r2000" "0 \<le> b" "b \<le> b500" "0 \<le> c" "c \<le> b200"
    "hit amount atm a b c" "d = c_div (amount - (a * 2000 + b * 500 + c * 200)) 100"
  using loop2000_found [of amount atm p b500 b200 r2000 a b c d] assms by simp_all

lemma c_div_nonneg: "0 \<le> a \<Longrightarrow> c_div a 100 = a div 100"
  by (simp add: c_div_def sgn_if)

lemma c_mod_nonneg: "0 \<le> a \<Longrightarrow> c_mod a 100 = a mod 100"
  by (simp add: c_mod_def sgn_if)

lemma hit_sum:
  assumes "hit amount atm a b c"
  shows "2000 * a + 500 * b + 200 * c
           + 100 * c_div (amount - (a * 2000 + b * 500 + c * 200)) 100 = amount"
proof -
  let ?rem = "amount - (a * 2000 + b * 500 + c * 200)"
  from assms have nn: "0 \<le> ?rem" and m: "c_mod ?rem 100 = 0"
    by (simp_all add: hit_def Let_def)
  from nn m have "?rem mod 100 = 0" by (simp add: c_mod_nonneg)
  then have "100 * (?rem div 100) = ?rem"
    using mult_div_mod_eq [of 100 ?rem] by simp
  with nn show ?thesis by (simp add: c_div_nonneg)
qed

lemma level_le: "level remaining d avail \<le> avail"
  by (simp add: level_def Let_def)


lemma calculateDenominations_cases:
  obtains
    (greedy) "greedy_remaining amount atm = 0"
      "calculateDenominations amount atm p =
         \<lparr>n2000 = greedy2000 amount atm, n500 = greedy500 amount atm,
          n200 = greedy200 amount atm, n100 = greedy100 amount atm, possible = 1,
          accesses = [Write_possible]\<rparr>"
  | (backtracked) a b c d evs where "greedy_remaining amount atm \<noteq> 0"
      "loop2000 amount atm p (greedy500 amount atm) (greedy200 amount atm)
         (greedy2000 amount atm) = (Some (a, b, c, d), evs)"
      "calculateDenominations amount atm p =
         \<lparr>n2000 = a, n500 = b, n200 = c, n100 = d, possible = 1, accesses = evs\<rparr>"
  | (infeasible) evs where "greedy_remaining amount atm \<noteq> 0"
      "loop2000 amount atm p (greedy500 amount atm) (greedy200 amount atm)
         (greedy2000 amount atm) = (None, evs)"
      "calculateDenominations amount atm p =
         \<lparr>n2000 = greedy2000 amount atm, n500 = greedy500 amount atm,
          n200 = greedy200 amount atm, n100 = greedy100 amount atm, possible = 0,
          accesses = evs @ [Write_possible]\<rparr>"
proof (cases "greedy_remaining amount atm = 0")
  case True
  then show ?thesis by (intro greedy) (simp_all add: calculateDenominations_greedy)
next
  case False
  obtain found evs where l: "loop2000 amount atm p (greedy500 amount atm) (greedy200 amount atm)
         (greedy2000 amount atm) = (found, evs)"
    by (cases "loop2000 amount atm p (greedy500 amount atm) (greedy200 amount atm)
         (greedy2000 amount atm)")
  show ?thesis
  proof (cases found)
    case None
    with False l show ?thesis by (intro infeasible) (simp_all add: calculateDenominations_greedy)
  next
    case (Some f)
    obtain a b c d where "f = (a, b, c, d)" by (cases f)
    with Some False l show ?thesis
      by (intro backtracked [of a b c d evs]) (simp_all add: calculateDenominations_greedy)
  qed
qed

lemma greedy_le:
  "greedy2000 amount atm \<le> note2000 atm" "greedy500 amount atm \<le> note500 atm"
  "greedy200 amount atm \<le> note200 atm" "greedy100 amount atm \<le> note100 atm"
  by (simp_all add: greedy2000_def greedy500_def greedy200_def greedy100_def level_le)

lemma backtracked_le:
  assumes "loop2000 amount atm p (greedy500 amount atm) (greedy200 amount atm)
             (greedy2000 amount atm) = (Some (a, b, c, d), evs)"
  shows "a \<le> note2000 atm" "b \<le> note500 atm" "c \<le> note200 atm" "d \<le> note100 atm"
proof -
  from loop2000_Some [OF assms]
  have "a \<le> greedy2000 amount atm" "b \<le> greedy500 amount atm" "c \<le> greedy200 amount atm"
    and h: "hit amount atm a b c" "d = c_div (amount - (a * 2000 + b * 500 + c * 200)) 100"
    by simp_all
  with greedy_le [of amount atm]
  show "a \<le> note2000 atm" "b \<le> note500 atm" "c \<le> note200 atm" by simp_all
  from h show "d \<le> note100 atm" by (simp add: hit_def Let_def)
qed

text \<open>
  Claim C1. Whatever the amount, the inventory without negative counts and the value left
  in \<open>*possible\<close> by the caller: if \<open>calculateDenominations\<close> reports the withdrawal
  possible, the notes of the returned plan sum exactly to the requested amount.
\<close>

theorem plan_sums_to_amount:
  "nonneg_inventory atm \<longrightarrow>
   possible (calculateDenominations amount atm p) \<noteq> 0 \<longrightarrow>
     2000 * n2000 (calculateDenominations amount atm p)
       + 500 * n500 (calculateDenominations amount atm p)
       + 200 * n200 (calculateDenominations amount atm p)
       + 100 * n100 (calculateDenominations amount atm p) = amount"
proof (cases rule: calculateDenominations_cases [where amount = amount and atm = atm and p = p])
  case greedy
  then show ?thesis by (simp add: greedy_remaining_def)
next
  case (backtracked a b c d evs)
  from loop2000_Some [OF backtracked(2)]
  have "hit amount atm a b c" and "d = c_div (amount - (a * 2000 + b * 500 + c * 200)) 100"
    by simp_all
  with hit_sum [of amount atm a b c] backtracked(3) show ?thesis by simp
next
  case (infeasible evs)
  then show ?thesis by simp
qed

theorem plan_sums_to_amount_witness:
  "nonneg_inventory \<lparr>note2000 = 10, note500 = 20, note200 = 50, note100 = 100\<rparr> \<and>
   possible (calculateDenominations 2300
      \<lparr>note2000 = 10, note500 = 20, note200 = 50, note100 = 100\<rparr> 7) \<noteq> 0 \<and>
   2000 * n2000 (calculateDenominations 2300
      \<lparr>note2000 = 10, note500 = 20, note200 = 50, note100 = 100\<rparr> 7)
   + 500 * n500 (calculateDenominations 2300
      \<lparr>note2000 = 10, note500 = 20, note200 = 50, note100 = 100\<rparr> 7)
   + 200 * n200 (calculateDenominations 2300
      \<lparr>note2000 = 10, note500 = 20, note200 = 50, note100 = 100\<rparr> 7)
   + 100 * n100 (calculateDenominations 2300
      \<lparr>note2000 = 10, note500 = 20, note200 = 50, note100 = 100\<rparr> 7) = 2300"
proof -
  have "possible (calculateDenominations 2300
      \<lparr>note2000 = 10, note500 = 20, note200 = 50, note100 = 100\<rparr> 7) \<noteq> 0"
    by code_simp
  moreover have "nonneg_inventory \<lparr>note2000 = 10, note500 = 20, note200 = 50, note100 = 100\<rparr>"
    by (simp add: nonneg_inventory_def)
  ultimately show ?thesis
    using plan_sums_to_amount
      [of "\<lparr>note2000 = 10, note500 = 20, note200 = 50, note100 = 100\<rparr>" 2300 7]
    by blast
qed

text \<open>
  Claim C2. If \<open>calculateDenominations\<close> reports the withdrawal possible, no count of the
  returned plan exceeds the inventory's count of that denomination.
\<close>

theorem plan_within_inventory:
  "possible (calculateDenominations amount atm p) \<noteq> 0 \<longrightarrow>
     n2000 (calculateDenominations amount atm p) \<le> note2000 atm \<and>
     n500 (calculateDenominations amount atm p) \<le> note500 atm \<and>
     n200 (calculateDenominations amount atm p) \<le> note200 atm \<and>
     n100 (calculateDenominations amount atm p) \<le> note100 atm"
proof (cases rule: calculateDenominations_cases [where amount = amount and atm = atm and p = p])
  case greedy
  then show ?thesis by (simp add: greedy_le)
next
  case (backtracked a b c d evs)
  with backtracked_le [OF backtracked(2)] show ?thesis by simp
next
  case (infeasible evs)
  then show ?thesis by simp
qed

theorem plan_within_inventory_witness:
  "possible (calculateDenominations 800
      \<lparr>note2000 = 0, note500 = 1, note200 = 1, note100 = 1\<rparr> 7) \<noteq> 0 \<and>
   n2000 (calculateDenominations 800
      \<lparr>note2000 = 0, note500 = 1, note200 = 1, note100 = 1\<rparr> 7) \<le> 0 \<and>
   n500 (calculateDenominations 800
      \<lparr>note2000 = 0, note500 = 1, note200 = 1, note100 = 1\<rparr> 7) \<le> 1 \<and>
   n200 (calculateDenominations 800
      \<lparr>note2000 = 0, note500 = 1, note200 = 1, note100 = 1\<rparr> 7) \<le> 1 \<and>
   n100 (calculateDenominations 800
      \<lparr>note2000 = 0, note500 = 1, note200 = 1, note100 = 1\<rparr> 7) \<le> 1"
proof -
  have "possible (calculateDenominations 800
      \<lparr>note2000 = 0, note500 = 1, note200 = 1, note100 = 1\<rparr> 7) \<noteq> 0"
    by code_simp
  with plan_within_inventory
    [of 800 "\<lparr>note2000 = 0, note500 = 1, note200 = 1, note100 = 1\<rparr>" 7]
  show ?thesis by simp
qed

subsection \<open>The greedy pass on a non-negative amount\<close>

lemma c_div_pos: "0 \<le> a \<Longrightarrow> 0 < d \<Longrightarrow> c_div a d = a div d"
  by (simp add: c_div_def sgn_if)

lemma level_min: "0 \<le> r \<Longrightarrow> 0 < d \<Longrightarrow> level r d v = min (r div d) v"
  by (simp add: level_def Let_def c_div_pos min_def)

lemma level_left:
  assumes "0 \<le> r" "0 < d"
  shows "0 \<le> r - level r d v * d"
proof -
  have "level r d v \<le> r div d" using assms by (simp add: level_min)
  then have "level r d v * d \<le> (r div d) * d" using assms(2) by (simp add: mult_right_mono)
  also have "\<dots> \<le> r"
    using div_mult_mod_eq [of r d] pos_mod_sign [of d r] assms(2) by linarith
  finally show ?thesis by simp
qed

lemma greedy_left:
  assumes "0 \<le> amount"
  shows "0 \<le> amount - greedy2000 amount atm * 2000"
    and "0 \<le> amount - greedy2000 amount atm * 2000 - greedy500 amount atm * 500"
    and "0 \<le> amount - greedy2000 amount atm * 2000 - greedy500 amount atm * 500
              - greedy200 amount atm * 200"
    and "0 \<le> greedy_remaining amount atm"
proof -
  show a: "0 \<le> amount - greedy2000 amount atm * 2000"
    unfolding greedy2000_def using assms by (intro level_left) simp_all
  show b: "0 \<le> amount - greedy2000 amount atm * 2000 - greedy500 amount atm * 500"
    unfolding greedy500_def using a by (intro level_left) simp_all
  show c: "0 \<le> amount - greedy2000 amount atm * 2000 - greedy500 amount atm * 500
              - greedy200 amount atm * 200"
    unfolding greedy200_def using b by (intro level_left) simp_all
  show "0 \<le> greedy_remaining amount atm"
    unfolding greedy_remaining_def greedy100_def using c by (intro level_left) simp_all
qed


text \<open>
  When the greedy pass leaves a remainder, no combination inside the search window passes
  the test of the innermost loop: the residual of a combination exceeds what the greedy
  pass left before the 100-level by a multiple of 100, so a combination that the 100-notes
  cover would have let the greedy pass finish.
\<close>

lemma window_no_hit:
  assumes amount: "0 \<le> amount"
    and fail: "greedy_remaining amount atm \<noteq> 0"
    and window: "a \<le> greedy2000 amount atm" "b \<le> greedy500 amount atm"
      "c \<le> greedy200 amount atm"
  shows "\<not> hit amount atm a b c"
proof
  assume h: "hit amount atm a b c"
  define left where "left = amount - greedy2000 amount atm * 2000 - greedy500 amount atm * 500
              - greedy200 amount atm * 200"
  define rem where "rem = amount - (a * 2000 + b * 500 + c * 200)"
  define k where "k = 20 * (greedy2000 amount atm - a) + 5 * (greedy500 amount atm - b)
              + 2 * (greedy200 amount atm - c)"
  have left: "0 \<le> left" unfolding left_def by (rule greedy_left(3) [OF amount])
  have k: "0 \<le> k" unfolding k_def using window by simp
  have rem: "rem = left + 100 * k" unfolding rem_def left_def k_def by simp
  from h have "0 \<le> rem" "c_mod rem 100 = 0" "c_div rem 100 \<le> note100 atm"
    by (simp_all add: hit_def Let_def rem_def)
  then have m: "rem mod 100 = 0" and d: "rem div 100 \<le> note100 atm"
    by (simp_all add: c_mod_nonneg c_div_nonneg)
  have lm: "left mod 100 = 0" using m unfolding rem by simp
  have "left \<le> rem" using rem k by simp
  then have "left div 100 \<le> rem div 100" by (simp add: zdiv_mono1)
  with d have "left div 100 \<le> note100 atm" by simp
  then have "greedy100 amount atm = left div 100"
    unfolding greedy100_def left_def [symmetric] using left by (simp add: level_min)
  then have "greedy_remaining amount atm = left - left div 100 * 100"
    by (simp add: greedy_remaining_def left_def)
  also have "\<dots> = left mod 100" by (simp add: minus_div_mult_eq_mod)
  finally show False using lm fail by simp
qed

lemma loop2000_None:
  assumes "0 \<le> amount" "greedy_remaining amount atm \<noteq> 0"
  shows "fst (loop2000 amount atm p (greedy500 amount atm) (greedy200 amount atm)
                (greedy2000 amount atm)) = None"
proof (rule ccontr)
  assume "\<not> ?thesis"
  then obtain f where f: "fst (loop2000 amount atm p (greedy500 amount atm)
      (greedy200 amount atm) (greedy2000 amount atm)) = Some f"
    by auto
  obtain a b c d where "f = (a, b, c, d)" by (cases f)
  with loop2000_found [of amount atm p _ _ _ a b c d] f
  have "a \<le> greedy2000 amount atm" "b \<le> greedy500 amount atm" "c \<le> greedy200 amount atm"
    "hit amount atm a b c"
    by simp_all
  with window_no_hit [OF assms] show False by blast
qed

lemma calculateDenominations_nonneg:
  assumes "0 \<le> amount"
  shows "solution_of (calculateDenominations amount atm p) =
    (if greedy_remaining amount atm = 0
     then Plan (greedy2000 amount atm) (greedy500 amount atm) (greedy200 amount atm)
            (greedy100 amount atm)
     else Infeasible (greedy2000 amount atm) (greedy500 amount atm) (greedy200 amount atm)
            (greedy100 amount atm))"
proof (cases rule: calculateDenominations_cases [where amount = amount and atm = atm and p = p])
  case greedy
  then show ?thesis by (simp add: solution_of_def)
next
  case (backtracked a b c d evs)
  with loop2000_None [OF assms backtracked(1), of p] show ?thesis by simp
next
  case (infeasible evs)
  then show ?thesis by (simp add: solution_of_def)
qed


text \<open>
  So on a non-negative amount the plan and the flag returned do not depend on the value
  the caller left in \<open>*possible\<close>.
\<close>

lemma possible0_irrelevant:
  "0 \<le> amount \<Longrightarrow>
     solution_of (calculateDenominations amount atm p)
       = solution_of (calculateDenominations amount atm q)"
  by (simp add: calculateDenominations_nonneg)

subsection \<open>Agreement with the solver of the specification\<close>

lemma set_spec_candidates:
  "(a, b, c) \<in> set (spec_candidates g2000 g500 g200) \<longleftrightarrow>
     0 \<le> a \<and> a \<le> g2000 \<and> 0 \<le> b \<and> b \<le> g500 \<and> 0 \<le> c \<and> c \<le> g200"
  (is "?L \<longleftrightarrow> ?R")
proof
  assume ?L
  then show ?R by (auto simp: spec_candidates_def)
next
  assume ?R
  then have "a \<in> {0..g2000}" "b \<in> {0..g500}" "c \<in> {0..g200}" by simp_all
  then have "(a, b, c) \<in> (\<Union>x\<in>{0..g2000}. \<Union>y\<in>{0..g500}. (\<lambda>z. (x, y, z)) ` {0..g200})"
    by blast
  then show ?L by (simp add: spec_candidates_def)
qed

text \<open>
  With the flag clear at entry the three nested loops return the first candidate that
  passes the test, in the order of the specification, from whatever counts they start.
\<close>

lemma find_append:
  "find P (xs @ ys) = (case find P xs of None \<Rightarrow> find P ys | Some x \<Rightarrow> Some x)"
  by (induction xs) simp_all

lemma rev_upto_step: "0 \<le> c \<Longrightarrow> rev [0..c] = c # rev [0..c - 1]"
  by (simp add: upto_rec2)

lemma hit_spec_accepts: "hit amount atm a b c \<longleftrightarrow> spec_accepts amount atm (a, b, c)"
proof -
  define rem where "rem = amount - (a * 2000 + b * 500 + c * 200)"
  have r: "spec_residual amount (a, b, c) = rem"
    by (simp add: spec_residual_def rem_def)
  have "(\<not> rem < 0 \<and> c_mod rem 100 = 0 \<and> c_div rem 100 \<le> note100 atm) \<longleftrightarrow>
        (0 \<le> rem \<and> 100 dvd rem \<and> rem div 100 \<le> note100 atm)"
    by (cases "0 \<le> rem") (simp_all add: c_mod_nonneg c_div_nonneg mod_eq_0_iff_dvd)
  then show ?thesis by (simp add: hit_def Let_def spec_accepts_def r rem_def)
qed

lemma hit_need100:
  "hit amount atm a b c \<Longrightarrow>
     c_div (amount - (a * 2000 + b * 500 + c * 200)) 100 = spec_residual amount (a, b, c) div 100"
  by (simp add: hit_def Let_def spec_residual_def c_div_nonneg)

lemma loop200_first:
  "p = 0 \<Longrightarrow>
   fst (loop200 amount atm p a b c) =
     map_option (found_of amount)
       (find (spec_accepts amount atm) (map (\<lambda>z. (a, b, z)) (rev [0..c])))"
proof (induction amount atm p a b c rule: loop200.induct)
  case (1 amount atm p a b c)
  show ?case
  proof (cases "c < 0")
    case True
    then show ?thesis by (simp add: loop200_stop)
  next
    case False
    then have c: "0 \<le> c" by simp
    show ?thesis
    proof (cases "hit amount atm a b c")
      case True
      with c "1.prems" show ?thesis
        by (simp add: loop200_hit rev_upto_step found_of_def hit_need100
              flip: hit_spec_accepts)
    next
      case miss: False
      from "1.IH" c "1.prems"
      have "fst (loop200 amount atm p a b (c - 1)) =
         map_option (found_of amount)
           (find (spec_accepts amount atm) (map (\<lambda>z. (a, b, z)) (rev [0..c - 1])))"
        by simp
      with miss c "1.prems" show ?thesis
        by (simp add: loop200_miss rev_upto_step split_beta flip: hit_spec_accepts)
    qed
  qed
qed


lemma loop500_step_fst:
  "0 \<le> r500 \<Longrightarrow>
   fst (loop500 amount atm 0 b200 r2000 r500) =
     (case fst (loop200 amount atm 0 r2000 r500 b200) of
        Some f \<Rightarrow> Some f
      | None \<Rightarrow> fst (loop500 amount atm 0 b200 r2000 (r500 - 1)))"
  by (simp add: loop500_step split: prod.splits option.splits)

lemma loop500_first:
  "p = 0 \<Longrightarrow>
   fst (loop500 amount atm p b200 a b) =
     map_option (found_of amount)
       (find (spec_accepts amount atm)
          (concat (map (\<lambda>y. map (\<lambda>z. (a, y, z)) (rev [0..b200])) (rev [0..b]))))"
proof (induction amount atm p b200 a b rule: loop500.induct)
  case (1 amount atm p b200 a b)
  from "1.prems" have p: "p = 0" .
  show ?case
  proof (cases "b < 0")
    case True
    then show ?thesis by (simp add: loop500_stop)
  next
    case False
    then have b: "0 \<le> b" by simp
    let ?row = "map (\<lambda>z. (a, b, z)) (rev [0..b200])"
    let ?below = "concat (map (\<lambda>y. map (\<lambda>z. (a, y, z)) (rev [0..b200])) (rev [0..b - 1]))"
    have inner: "fst (loop200 amount atm 0 a b b200) =
        map_option (found_of amount) (find (spec_accepts amount atm) ?row)"
      by (rule loop200_first [OF refl])
    have split: "concat (map (\<lambda>y. map (\<lambda>z. (a, y, z)) (rev [0..b200])) (rev [0..b]))
        = ?row @ ?below"
      using b by (simp add: rev_upto_step)
    show ?thesis
    proof (cases "find (spec_accepts amount atm) ?row")
      case (Some k)
      with inner b show ?thesis
        unfolding p split by (simp add: loop500_step_fst find_append)
    next
      case None
      with inner have n: "fst (loop200 amount atm 0 a b b200) = None" by simp
      then obtain evs where l: "loop200 amount atm p a b b200 = (None, evs)"
        unfolding p by (cases "loop200 amount atm 0 a b b200") simp
      from "1.IH" [OF _ _ l [symmetric] refl p] b p
      have "fst (loop500 amount atm 0 b200 a (b - 1)) =
         map_option (found_of amount) (find (spec_accepts amount atm) ?below)"
        by simp
      with None n b show ?thesis
        unfolding p split by (simp add: loop500_step_fst find_append)
    qed
  qed
qed

lemma loop2000_step_fst:
  "0 \<le> r2000 \<Longrightarrow>
   fst (loop2000 amount atm 0 b500 b200 r2000) =
     (case fst (loop500 amount atm 0 b200 r2000 b500) of
        Some f \<Rightarrow> Some f
      | None \<Rightarrow> fst (loop2000 amount atm 0 b500 b200 (r2000 - 1)))"
  by (simp add: loop2000_step split: prod.splits option.splits)

lemma loop2000_first:
  "p = 0 \<Longrightarrow>
   fst (loop2000 amount atm p b500 b200 a) =
     map_option (found_of amount)
       (find (spec_accepts amount atm) (spec_candidates a b500 b200))"
proof (induction amount atm p b500 b200 a rule: loop2000.induct)
  case (1 amount atm p b500 b200 a)
  from "1.prems" have p: "p = 0" .
  show ?case
  proof (cases "a < 0")
    case True
    then show ?thesis by (simp add: loop2000_stop spec_candidates_def)
  next
    case False
    then have a: "0 \<le> a" by simp
    let ?block = "concat (map (\<lambda>y. map (\<lambda>z. (a, y, z)) (rev [0..b200])) (rev [0..b500]))"
    have inner: "fst (loop500 amount atm 0 b200 a b500) =
        map_option (found_of amount) (find (spec_accepts amount atm) ?block)"
      by (rule loop500_first [OF refl])
    have split: "spec_candidates a b500 b200 = ?block @ spec_candidates (a - 1) b500 b200"
      using a by (simp add: spec_candidates_def rev_upto_step)
    show ?thesis
    proof (cases "find (spec_accepts amount atm) ?block")
      case (Some k)
      with inner a show ?thesis
        unfolding p split by (simp add: loop2000_step_fst find_append)
    next
      case None
      with inner have n: "fst (loop500 amount atm 0 b200 a b500) = None" by simp
      then obtain evs where l: "loop500 amount atm p b200 a b500 = (None, evs)"
        unfolding p by (cases "loop500 amount atm 0 b200 a b500") simp
      from "1.IH" [OF _ _ l [symmetric] refl p] a p
      have "fst (loop2000 amount atm 0 b500 b200 (a - 1)) =
         map_option (found_of amount)
           (find (spec_accepts amount atm) (spec_candidates (a - 1) b500 b200))"
        by simp
      with None n a show ?thesis
        unfolding p split by (simp add: loop2000_step_fst find_append)
    qed
  qed
qed

lemma spec_solve_nonneg:
  assumes "0 \<le> amount"
  shows "spec_solve amount atm =
    (if greedy_remaining amount atm = 0
     then Plan (greedy2000 amount atm) (greedy500 amount atm) (greedy200 amount atm)
            (greedy100 amount atm)
     else Infeasible (greedy2000 amount atm) (greedy500 amount atm) (greedy200 amount atm)
            (greedy100 amount atm))"
proof -
  have g1: "min (amount div 2000) (note2000 atm) = greedy2000 amount atm"
    using assms by (simp add: greedy2000_def level_min)
  have g2: "min ((amount - greedy2000 amount atm * 2000) div 500) (note500 atm)
              = greedy500 amount atm"
    using greedy_left(1) [OF assms] by (simp add: greedy500_def level_min)
  have g3: "min ((amount - greedy2000 amount atm * 2000 - greedy500 amount atm * 500) div 200)
              (note200 atm) = greedy200 amount atm"
    using greedy_left(2) [OF assms] by (simp add: greedy200_def level_min)
  have g4: "min ((amount - greedy2000 amount atm * 2000 - greedy500 amount atm * 500
              - greedy200 amount atm * 200) div 100) (note100 atm) = greedy100 amount atm"
    using greedy_left(3) [OF assms] by (simp add: greedy100_def level_min)
  have unfolded: "spec_solve amount atm =
    (if greedy_remaining amount atm = 0
     then Plan (greedy2000 amount atm) (greedy500 amount atm) (greedy200 amount atm)
            (greedy100 amount atm)
     else (case find (spec_accepts amount atm)
                 (spec_candidates (greedy2000 amount atm) (greedy500 amount atm)
                    (greedy200 amount atm)) of
             Some k \<Rightarrow> (case k of (a, b, c) \<Rightarrow> Plan a b c (spec_residual amount k div 100))
           | None \<Rightarrow> Infeasible (greedy2000 amount atm) (greedy500 amount atm)
                      (greedy200 amount atm) (greedy100 amount atm)))"
    unfolding spec_solve_def Let_def g1 g2 g3 g4 greedy_remaining_def by (rule refl)
  show ?thesis
  proof (cases "greedy_remaining amount atm = 0")
    case True
    then show ?thesis by (simp add: unfolded)
  next
    case False
    have "find (spec_accepts amount atm)
            (spec_candidates (greedy2000 amount atm) (greedy500 amount atm)
               (greedy200 amount atm)) = None"
      unfolding find_None_iff
    proof (intro notI, elim exE conjE)
      fix k
      assume k: "k \<in> set (spec_candidates (greedy2000 amount atm) (greedy500 amount atm)
               (greedy200 amount atm))" and acc: "spec_accepts amount atm k"
      obtain a b c where kk: "k = (a, b, c)" by (cases k)
      from k have "a \<le> greedy2000 amount atm" "b \<le> greedy500 amount atm"
        "c \<le> greedy200 amount atm"
        by (simp_all add: kk set_spec_candidates)
      from window_no_hit [OF assms False this] hit_spec_accepts [THEN iffD2, OF acc [unfolded kk]]
      show False by simp
    qed
    with False show ?thesis by (simp add: unfolded)
  qed
qed

text \<open>
  Claim C4. On every non-negative amount and every inventory without negative counts,
  \<open>calculateDenominations\<close> returns what the reference
  algorithm of the specification returns (the greedy plan, else the first combination of
  the nested descending iteration that passes the test, else infeasible with the greedy
  figures), whatever value the caller left in \<open>*possible\<close>. For the inventory
  2000:10, 500:20, 200:50, 100:100 and the amount 2300 the plan is 2000:1, 500:0, 200:1,
  100:1.
\<close>

theorem calculateDenominations_refines_spec:
  "(0 \<le> amount \<and> nonneg_inventory atm \<longrightarrow>
      solution_of (calculateDenominations amount atm p) = spec_solve amount atm) \<and>
   solution_of (calculateDenominations 2300
       \<lparr>note2000 = 10, note500 = 20, note200 = 50, note100 = 100\<rparr> p) = Plan 1 0 1 1"
proof -
  have general: "solution_of (calculateDenominations n a p) = spec_solve n a" if "0 \<le> n" for n a
    using that by (simp add: calculateDenominations_nonneg spec_solve_nonneg)
  have "spec_solve 2300 \<lparr>note2000 = 10, note500 = 20, note200 = 50, note100 = 100\<rparr>
          = Plan 1 0 1 1"
    by code_simp
  with general [of 2300 "\<lparr>note2000 = 10, note500 = 20, note200 = 50, note100 = 100\<rparr>"] general
  show ?thesis by simp
qed


theorem calculateDenominations_refines_spec_witness:
  "(0::int) \<le> 300 \<and>
   nonneg_inventory \<lparr>note2000 = 1, note500 = 0, note200 = 1, note100 = 0\<rparr> \<and>
   solution_of (calculateDenominations 300
       \<lparr>note2000 = 1, note500 = 0, note200 = 1, note100 = 0\<rparr> 5)
     = spec_solve 300 \<lparr>note2000 = 1, note500 = 0, note200 = 1, note100 = 0\<rparr> \<and>
   spec_solve 300 \<lparr>note2000 = 1, note500 = 0, note200 = 1, note100 = 0\<rparr>
     = Infeasible 0 0 1 0"
proof -
  have "spec_solve 300 \<lparr>note2000 = 1, note500 = 0, note200 = 1, note100 = 0\<rparr>
     = Infeasible 0 0 1 0"
    by code_simp
  moreover have "nonneg_inventory \<lparr>note2000 = 1, note500 = 0, note200 = 1, note100 = 0\<rparr>"
    by (simp add: nonneg_inventory_def)
  ultimately show ?thesis
    using calculateDenominations_refines_spec
         [of 300 "\<lparr>note2000 = 1, note500 = 0, note200 = 1, note100 = 0\<rparr>" 5]
    by simp
qed

subsection \<open>Completeness\<close>

text \<open>
  Claim C5 as stated fails: 600 is a positive multiple of 100, three 200-notes are a feasible
  plan for the inventory 2000:0, 500:1, 200:3, 100:0, and \<open>calculateDenominations\<close> reports
  the withdrawal impossible, even with \<open>*possible\<close> zero at entry. The greedy pass takes the
  500-note and no 200-note, and the search never raises a count above the greedy one.
\<close>

theorem feasible_but_refused:
  "(0::int) < 600 \<and> (600::int) mod 100 = 0 \<and>
   feasible 600 \<lparr>note2000 = 0, note500 = 1, note200 = 3, note100 = 0\<rparr> (0, 0, 3, 0) \<and>
   possible (calculateDenominations 600
       \<lparr>note2000 = 0, note500 = 1, note200 = 3, note100 = 0\<rparr> 0) = 0 \<and>
   possible (calculateDenominations 600
       \<lparr>note2000 = 0, note500 = 1, note200 = 3, note100 = 0\<rparr> 1) = 0"
  by code_simp

lemma feasible_hit:
  assumes "feasible amount atm (a, b, c, d)"
  shows "hit amount atm a b c"
proof -
  from assms have d: "0 \<le> d" "d \<le> note100 atm"
    and s: "amount - (a * 2000 + b * 500 + c * 200) = d * 100"
    by (simp_all add: feasible_def)
  from d have "\<not> d * 100 < 0 \<and> c_mod (d * 100) 100 = 0 \<and> c_div (d * 100) 100 \<le> note100 atm"
    by (simp add: c_mod_nonneg c_div_nonneg)
  then show ?thesis by (simp add: hit_def Let_def s)
qed

text \<open>
  Claim C5, amended. For every amount and inventory for which a feasible plan exists whose
  counts of 2000-, 500- and 200-notes do not exceed the counts the greedy pass chose,
  \<open>calculateDenominations\<close> reports the withdrawal possible.
\<close>

theorem window_complete:
  assumes "feasible amount atm (a, b, c, d)"
    and "a \<le> greedy2000 amount atm" "b \<le> greedy500 amount atm" "c \<le> greedy200 amount atm"
  shows "possible (calculateDenominations amount atm p) \<noteq> 0"
proof -
  from assms(1) have "0 \<le> amount" by (auto simp: feasible_def)
  with window_no_hit [of amount atm a b c] feasible_hit [OF assms(1)] assms(2-4)
  have "greedy_remaining amount atm = 0" by blast
  then show ?thesis by (simp add: calculateDenominations_greedy)
qed

theorem window_complete_witness:
  "feasible 800 \<lparr>note2000 = 0, note500 = 1, note200 = 1, note100 = 1\<rparr> (0, 1, 1, 1) \<and>
   0 \<le> greedy2000 800 \<lparr>note2000 = 0, note500 = 1, note200 = 1, note100 = 1\<rparr> \<and>
   1 \<le> greedy500 800 \<lparr>note2000 = 0, note500 = 1, note200 = 1, note100 = 1\<rparr> \<and>
   1 \<le> greedy200 800 \<lparr>note2000 = 0, note500 = 1, note200 = 1, note100 = 1\<rparr> \<and>
   possible (calculateDenominations 800
       \<lparr>note2000 = 0, note500 = 1, note200 = 1, note100 = 1\<rparr> 9) \<noteq> 0"
proof -
  have h: "feasible 800 \<lparr>note2000 = 0, note500 = 1, note200 = 1, note100 = 1\<rparr> (0, 1, 1, 1)"
    "0 \<le> greedy2000 800 \<lparr>note2000 = 0, note500 = 1, note200 = 1, note100 = 1\<rparr>"
    "1 \<le> greedy500 800 \<lparr>note2000 = 0, note500 = 1, note200 = 1, note100 = 1\<rparr>"
    "1 \<le> greedy200 800 \<lparr>note2000 = 0, note500 = 1, note200 = 1, note100 = 1\<rparr>"
    by code_simp+
  from window_complete [OF h, of 9] h show ?thesis by simp
qed

subsection \<open>Accesses to the output flag\<close>

lemma loop2000_reads_first:
  assumes "0 \<le> r2000"
  shows "\<exists>evs. snd (loop2000 amount atm p b500 b200 r2000) = Read_possible # evs"
proof (cases "p = 0")
  case False
  with assms show ?thesis by (simp add: loop2000_flag)
next
  case True
  with assms show ?thesis
    by (simp add: loop2000_step split: prod.splits option.splits)
qed

text \<open>
  Claim C10 fails on the code. Whenever the greedy pass leaves a remainder and its count of
  2000-notes is not negative, the first access of the call to \<open>*possible\<close> is the read in
  the guard of the outer loop, before any assignment. The caller passes the cell
  uninitialised, so the read yields an indeterminate value.
\<close>

theorem possible_read_before_assigned:
  assumes "greedy_remaining amount atm \<noteq> 0" and "0 \<le> greedy2000 amount atm"
  shows "hd (accesses (calculateDenominations amount atm p)) = Read_possible"
proof -
  from loop2000_reads_first [OF assms(2)]
  obtain evs where "snd (loop2000 amount atm p (greedy500 amount atm) (greedy200 amount atm)
      (greedy2000 amount atm)) = Read_possible # evs"
    by blast
  with assms(1) show ?thesis
    by (cases rule: calculateDenominations_cases [where amount = amount and atm = atm and p = p])
       simp_all
qed

theorem possible_read_before_assigned_witness:
  "greedy_remaining 300 \<lparr>note2000 = 1, note500 = 0, note200 = 1, note100 = 0\<rparr> \<noteq> 0 \<and>
   0 \<le> greedy2000 300 \<lparr>note2000 = 1, note500 = 0, note200 = 1, note100 = 0\<rparr> \<and>
   hd (accesses (calculateDenominations 300
      \<lparr>note2000 = 1, note500 = 0, note200 = 1, note100 = 0\<rparr> 0)) = Read_possible \<and>
   accesses (calculateDenominations 300
      \<lparr>note2000 = 1, note500 = 0, note200 = 1, note100 = 0\<rparr> 0)
     = [Read_possible, Read_possible, Read_possible, Read_possible, Write_possible] \<and>
   accesses (calculateDenominations 300
      \<lparr>note2000 = 1, note500 = 0, note200 = 1, note100 = 0\<rparr> 1)
     = [Read_possible, Write_possible]"
proof -
  have h: "greedy_remaining 300 \<lparr>note2000 = 1, note500 = 0, note200 = 1, note100 = 0\<rparr> \<noteq> 0"
    "0 \<le> greedy2000 300 \<lparr>note2000 = 1, note500 = 0, note200 = 1, note100 = 0\<rparr>"
    by code_simp+
  have e: "accesses (calculateDenominations 300
      \<lparr>note2000 = 1, note500 = 0, note200 = 1, note100 = 0\<rparr> 0)
     = [Read_possible, Read_possible, Read_possible, Read_possible, Write_possible]"
    "accesses (calculateDenominations 300
      \<lparr>note2000 = 1, note500 = 0, note200 = 1, note100 = 0\<rparr> 1)
     = [Read_possible, Write_possible]"
    by code_simp+
  from possible_read_before_assigned [OF h, of 0] h e show ?thesis by simp
qed

subsection \<open>Ranges\<close>

text \<open>
  On a non-negative amount and a non-negative inventory the counts of the greedy pass and
  of a plan reported possible are non-negative, and the notes of the greedy pass never
  exceed the amount: every intermediate value of the function lies between 0 and the
  amount, and every count after the debit between 0 and the count before.
\<close>

lemma plan_le_inventory:
  assumes "possible (calculateDenominations amount atm p) \<noteq> 0"
  shows "n2000 (calculateDenominations amount atm p) \<le> note2000 atm"
    "n500 (calculateDenominations amount atm p) \<le> note500 atm"
    "n200 (calculateDenominations amount atm p) \<le> note200 atm"
    "n100 (calculateDenominations amount atm p) \<le> note100 atm"
proof -
  have "n2000 (calculateDenominations amount atm p) \<le> note2000 atm \<and>
    n500 (calculateDenominations amount atm p) \<le> note500 atm \<and>
    n200 (calculateDenominations amount atm p) \<le> note200 atm \<and>
    n100 (calculateDenominations amount atm p) \<le> note100 atm"
  proof (cases rule: calculateDenominations_cases [where amount = amount and atm = atm and p = p])
    case greedy
    then show ?thesis by (simp add: greedy_le)
  next
    case (backtracked a b c d evs)
    with backtracked_le [OF backtracked(2)] show ?thesis by simp
  next
    case (infeasible evs)
    with assms show ?thesis by simp
  qed
  then show "n2000 (calculateDenominations amount atm p) \<le> note2000 atm"
    "n500 (calculateDenominations amount atm p) \<le> note500 atm"
    "n200 (calculateDenominations amount atm p) \<le> note200 atm"
    "n100 (calculateDenominations amount atm p) \<le> note100 atm"
    by simp_all
qed

lemma level_nonneg: "0 \<le> r \<Longrightarrow> 0 < d \<Longrightarrow> 0 \<le> v \<Longrightarrow> 0 \<le> level r d v"
  by (simp add: level_min pos_imp_zdiv_nonneg_iff)

lemma greedy_in_range:
  assumes "0 \<le> amount"
    and "0 \<le> note2000 atm" "0 \<le> note500 atm" "0 \<le> note200 atm" "0 \<le> note100 atm"
  shows "0 \<le> greedy2000 amount atm" "0 \<le> greedy500 amount atm"
    "0 \<le> greedy200 amount atm" "0 \<le> greedy100 amount atm"
    "greedy2000 amount atm * 2000 + greedy500 amount atm * 500
       + greedy200 amount atm * 200 + greedy100 amount atm * 100 \<le> amount"
proof -
  show "0 \<le> greedy2000 amount atm"
    unfolding greedy2000_def using assms by (intro level_nonneg) simp_all
  show "0 \<le> greedy500 amount atm"
    unfolding greedy500_def using greedy_left(1) [OF assms(1)] assms
    by (intro level_nonneg) simp_all
  show "0 \<le> greedy200 amount atm"
    unfolding greedy200_def using greedy_left(2) [OF assms(1)] assms
    by (intro level_nonneg) simp_all
  show "0 \<le> greedy100 amount atm"
    unfolding greedy100_def using greedy_left(3) [OF assms(1)] assms
    by (intro level_nonneg) simp_all
  from greedy_left(4) [OF assms(1), of atm]
  show "greedy2000 amount atm * 2000 + greedy500 amount atm * 500
       + greedy200 amount atm * 200 + greedy100 amount atm * 100 \<le> amount"
    by (simp add: greedy_remaining_def)
qed

lemma plan_nonneg:
  assumes "0 \<le> amount"
    and "0 \<le> note2000 atm" "0 \<le> note500 atm" "0 \<le> note200 atm" "0 \<le> note100 atm"
    and "possible (calculateDenominations amount atm p) \<noteq> 0"
  shows "0 \<le> n2000 (calculateDenominations amount atm p) \<and>
    0 \<le> n500 (calculateDenominations amount atm p) \<and>
    0 \<le> n200 (calculateDenominations amount atm p) \<and>
    0 \<le> n100 (calculateDenominations amount atm p)"
proof (cases rule: calculateDenominations_cases [where amount = amount and atm = atm and p = p])
  case greedy
  with greedy_in_range [OF assms(1-5)] show ?thesis by simp
next
  case (backtracked a b c d evs)
  with loop2000_None [OF assms(1) backtracked(1), of p] show ?thesis by simp
next
  case (infeasible evs)
  with assms(6) show ?thesis by simp
qed

section \<open>Properties of the double arithmetic\<close>

text \<open>
  The exponent and the rounding are what their names say; a number with a significand of
  at most 53 bits on the grid of an exponent from -1074 is a double, and the rounding
  returns doubles, within half a unit in the last place.
\<close>

declare ilog2.simps [simp del]

lemma ilog2_bounds:
  "1 \<le> n \<Longrightarrow> 0 \<le> ilog2 n \<and> 2 ^ nat (ilog2 n) \<le> n \<and> n < 2 * 2 ^ nat (ilog2 n)"
proof (induction n rule: ilog2.induct)
  case (1 n)
  show ?case
  proof (cases "n < 2")
    case True
    with "1.prems" have "n = 1" by simp
    then show ?thesis by (simp add: ilog2.simps [of 1])
  next
    case False
    then have h: "1 \<le> n div 2" by simp
    from "1.IH" [OF False h]
    have ih: "0 \<le> ilog2 (n div 2)" "2 ^ nat (ilog2 (n div 2)) \<le> n div 2"
      "n div 2 < 2 * 2 ^ nat (ilog2 (n div 2))"
      by simp_all
    from False have e: "ilog2 n = 1 + ilog2 (n div 2)" by (simp add: ilog2.simps [of n])
    from ih(1) have p: "(2::int) ^ nat (1 + ilog2 (n div 2)) = 2 * 2 ^ nat (ilog2 (n div 2))"
      by (simp add: nat_add_distrib)
    from ih(2,3) have "2 * 2 ^ nat (ilog2 (n div 2)) \<le> n"
      "n < 2 * (2 * 2 ^ nat (ilog2 (n div 2)))"
      by linarith+
    with ih(1) show ?thesis by (simp add: e p)
  qed
qed

lemma pow2_powr: "pow2 k = 2 powr of_int k"
proof (cases "0 \<le> k")
  case True
  then have "(2::real) powr of_int k = 2 powr of_nat (nat k)" by simp
  also have "\<dots> = 2 ^ nat k" by (rule powr_realpow) simp
  finally show ?thesis using True by (simp add: pow2_def)
next
  case False
  then have "(2::real) powr of_int k = 2 powr (- of_nat (nat (- k)))" by simp
  also have "\<dots> = 1 / 2 powr of_nat (nat (- k))" by (simp only: powr_minus_divide)
  also have "\<dots> = 1 / 2 ^ nat (- k)" by (simp only: powr_realpow [of 2, OF zero_less_numeral])
  finally show ?thesis using False by (simp add: pow2_def)
qed

lemma pow2_pos: "0 < pow2 k"
  by (simp add: pow2_powr)

lemma pow2_add: "pow2 (a + b) = pow2 a * pow2 b"
  by (simp add: pow2_powr powr_add)

lemma pow2_le: "pow2 a \<le> pow2 b \<longleftrightarrow> a \<le> b"
  by (simp add: pow2_powr)

lemma pow2_less: "pow2 a < pow2 b \<longleftrightarrow> a < b"
  by (simp add: pow2_powr)

lemma pow2_nat: "0 \<le> k \<Longrightarrow> pow2 k = 2 ^ nat k"
  by (simp add: pow2_def)

lemma pow2_zero: "pow2 0 = 1"
  by (simp add: pow2_def)


lemma exponent_bounds:
  assumes "x \<noteq> 0"
  shows "pow2 (exponent x) \<le> \<bar>x\<bar> \<and> \<bar>x\<bar> < pow2 (exponent x + 1)"
proof (cases "1 \<le> \<bar>x\<bar>")
  case True
  define n where "n = \<lfloor>\<bar>x\<bar>\<rfloor>"
  define k where "k = ilog2 n"
  from True have n1: "1 \<le> n" unfolding n_def by linarith
  from ilog2_bounds [OF n1]
  have k: "0 \<le> k" "2 ^ nat k \<le> n" "n < 2 * 2 ^ nat k" unfolding k_def by simp_all
  have e: "exponent x = k" using True by (simp add: exponent_def k_def n_def)
  have lo: "of_int n \<le> \<bar>x\<bar>" and hi: "\<bar>x\<bar> < of_int (n + 1)"
    unfolding n_def by linarith+
  from k(2) have "(of_int (2 ^ nat k) :: real) \<le> of_int n" by (simp only: of_int_le_iff)
  then have "(2 ^ nat k :: real) \<le> of_int n" by (simp only: of_int_power of_int_numeral)
  then have "2 ^ nat k \<le> \<bar>x\<bar>" using lo by linarith
  then have a: "pow2 k \<le> \<bar>x\<bar>" using k(1) by (simp only: pow2_nat)
  from k(3) have "n + 1 \<le> 2 * 2 ^ nat k" by simp
  then have "(of_int (n + 1) :: real) \<le> of_int (2 * 2 ^ nat k)" by (simp only: of_int_le_iff)
  then have "(of_int (n + 1) :: real) \<le> 2 * 2 ^ nat k"
    by (simp only: of_int_mult of_int_power of_int_numeral)
  then have "\<bar>x\<bar> < 2 * 2 ^ nat k" using hi by linarith
  moreover have "pow2 (k + 1) = 2 * 2 ^ nat k"
    using k(1) by (simp add: pow2_nat nat_add_distrib)
  ultimately show ?thesis using a e by simp
next
  case False
  with assms have x: "0 < \<bar>x\<bar>" "\<bar>x\<bar> < 1" by simp_all
  define t where "t = 1 / \<bar>x\<bar>"
  define n where "n = \<lceil>t\<rceil> - 1"
  define k where "k = ilog2 n"
  from x have t1: "1 < t" unfolding t_def by simp
  then have n1: "1 \<le> n" unfolding n_def by linarith
  from ilog2_bounds [OF n1]
  have k: "0 \<le> k" "2 ^ nat k \<le> n" "n < 2 * 2 ^ nat k" unfolding k_def by simp_all
  have e: "exponent x = - (k + 1)"
    using False by (simp add: exponent_def k_def n_def t_def)
  have lo: "of_int n < t" and hi: "t \<le> of_int (n + 1)"
    unfolding n_def by linarith+
  from k(2) have "(of_int (2 ^ nat k) :: real) \<le> of_int n" by (simp only: of_int_le_iff)
  then have "(2 ^ nat k :: real) \<le> of_int n" by (simp only: of_int_power of_int_numeral)
  then have a: "2 ^ nat k < t" using lo by linarith
  from k(3) have "n + 1 \<le> 2 * 2 ^ nat k" by simp
  then have "(of_int (n + 1) :: real) \<le> of_int (2 * 2 ^ nat k)" by (simp only: of_int_le_iff)
  then have "(of_int (n + 1) :: real) \<le> 2 * 2 ^ nat k"
    by (simp only: of_int_mult of_int_power of_int_numeral)
  then have b: "t \<le> 2 * 2 ^ nat k" using hi by linarith
  have xt: "\<bar>x\<bar> = 1 / t" unfolding t_def by simp
  have t0: "0 < t" using t1 by simp
  have p1: "pow2 (- (k + 1)) = 1 / (2 * 2 ^ nat k)"
    using k(1) by (simp add: pow2_def nat_add_distrib)
  have p2: "pow2 (- (k + 1) + 1) = 1 / 2 ^ nat k"
    using k(1) by (cases "k = 0") (simp_all add: pow2_def)
  have "1 / (2 * 2 ^ nat k) \<le> 1 / t"
    using b t0 by (intro divide_left_mono) simp_all
  moreover have "1 / t < 1 / 2 ^ nat k"
    using a t0 by (intro divide_strict_left_mono) simp_all
  ultimately show ?thesis by (simp only: e p1 p2 xt)
qed

lemma exponent_less: "x \<noteq> 0 \<Longrightarrow> \<bar>x\<bar> < pow2 k \<Longrightarrow> exponent x < k"
proof -
  assume a: "x \<noteq> 0" "\<bar>x\<bar> < pow2 k"
  from exponent_bounds [OF a(1)] a(2) have "pow2 (exponent x) < pow2 k" by linarith
  then show ?thesis by (simp only: pow2_less)
qed

lemma exponent_ge: "x \<noteq> 0 \<Longrightarrow> pow2 k \<le> \<bar>x\<bar> \<Longrightarrow> k \<le> exponent x"
proof -
  assume a: "x \<noteq> 0" "pow2 k \<le> \<bar>x\<bar>"
  from exponent_bounds [OF a(1)] a(2) have "pow2 k < pow2 (exponent x + 1)" by linarith
  then have "k < exponent x + 1" by (simp only: pow2_less)
  then show ?thesis by simp
qed

lemma round_even_err: "\<bar>of_int (round_even y) - y\<bar> \<le> 1 / 2"
proof -
  have "of_int \<lfloor>y\<rfloor> \<le> y" "y < of_int \<lfloor>y\<rfloor> + 1" by linarith+
  then show ?thesis
    by (simp add: round_even_def Let_def)
qed

lemma round_even_of_int: "round_even (of_int n) = n"
  by (simp add: round_even_def Let_def)

lemma round_even_mono_bound:
  assumes "\<bar>y\<bar> \<le> of_int N"
  shows "\<bar>round_even y\<bar> \<le> N"
proof -
  from round_even_err [of y] assms
  have "\<bar>of_int (round_even y) :: real\<bar> \<le> of_int N + 1 / 2" by linarith
  then have "(of_int \<bar>round_even y\<bar> :: real) < of_int (N + 1)" by simp
  then have "\<bar>round_even y\<bar> < N + 1" by (simp only: of_int_less_iff)
  then show ?thesis by simp
qed

lemma round_double_unfold:
  "x \<noteq> 0 \<Longrightarrow>
   round_double x =
     of_int (round_even (x / pow2 (max (exponent x) (- 1022) - 52)))
       * pow2 (max (exponent x) (- 1022) - 52)"
  by (simp add: round_double_def Let_def)

lemma pow2_diff_nat: "a \<le> b \<Longrightarrow> pow2 b = pow2 a * 2 ^ nat (b - a)"
proof -
  assume "a \<le> b"
  then have "pow2 (b - a) = 2 ^ nat (b - a)" by (simp add: pow2_nat)
  moreover have "pow2 b = pow2 (a + (b - a))" by simp
  ultimately show ?thesis by (simp only: pow2_add)
qed

lemma pow2_one: "pow2 1 = 2"
  by (simp add: pow2_def)

lemma round_double_fixes_lt:
  assumes m: "\<bar>m\<bar> < 2 ^ 53" and j: "- 1074 \<le> j"
  shows "round_double (of_int m * pow2 j) = of_int m * pow2 j"
proof (cases "m = 0")
  case True
  then show ?thesis by (simp add: round_double_def)
next
  case False
  define x where "x = of_int m * pow2 j"
  define J where "J = max (exponent x) (- 1022) - 52"
  have x0: "x \<noteq> 0" using False pow2_pos [of j] by (simp add: x_def)
  have "\<bar>x\<bar> = of_int \<bar>m\<bar> * pow2 j"
    using pow2_pos [of j] by (simp add: x_def abs_mult)
  moreover from m have "(of_int \<bar>m\<bar> :: real) < of_int (2 ^ 53)" by (simp only: of_int_less_iff)
  then have "(of_int \<bar>m\<bar> :: real) < pow2 53" by (simp add: pow2_def)
  ultimately have "\<bar>x\<bar> < pow2 53 * pow2 j"
    using pow2_pos [of j] by simp
  then have "\<bar>x\<bar> < pow2 (j + 53)" by (simp add: pow2_add mult.commute)
  from exponent_less [OF x0 this] have "exponent x < j + 53" .
  with j have Jj: "J \<le> j" by (simp add: J_def)
  define d where "d = nat (j - J)"
  from pow2_diff_nat [OF Jj] have pj: "pow2 j = pow2 J * 2 ^ d" by (simp add: d_def)
  have "x / pow2 J = of_int m * 2 ^ d"
    using pow2_pos [of J] by (simp add: x_def pj)
  also have "\<dots> = of_int (m * 2 ^ d)" by simp
  finally have "round_even (x / pow2 J) = m * 2 ^ d" by (simp only: round_even_of_int)
  then have "round_double x = of_int (m * 2 ^ d) * pow2 J"
    using round_double_unfold [OF x0] by (simp only: J_def)
  also have "\<dots> = x" by (simp add: x_def pj)
  finally show ?thesis by (simp only: x_def)
qed

lemma round_double_fixes:
  assumes m: "\<bar>m\<bar> \<le> 2 ^ 53" and j: "- 1074 \<le> j"
  shows "round_double (of_int m * pow2 j) = of_int m * pow2 j"
proof (cases "\<bar>m\<bar> < 2 ^ 53")
  case True
  then show ?thesis using j by (rule round_double_fixes_lt)
next
  case False
  with m have "\<bar>m\<bar> = 2 ^ 53" by simp
  then have "m = 2 * 4503599627370496 \<or> m = 2 * (- 4503599627370496)"
    by (simp add: abs_eq_iff')
  then obtain h :: int where h: "m = 2 * h" "\<bar>h\<bar> < 2 ^ 53"
  proof
    assume "m = 2 * 4503599627370496"
    then show ?thesis using that [of 4503599627370496] by simp
  next
    assume "m = 2 * (- 4503599627370496)"
    then show ?thesis using that [of "- 4503599627370496"] by simp
  qed
  have "of_int m * pow2 j = of_int h * pow2 (j + 1)"
    by (simp add: h(1) pow2_add pow2_one)
  moreover from j have "- 1074 \<le> j + 1" by simp
  from round_double_fixes_lt [OF h(2) this]
  have "round_double (of_int h * pow2 (j + 1)) = of_int h * pow2 (j + 1)" .
  ultimately show ?thesis by simp
qed

lemma round_double_rep:
  assumes "x \<noteq> 0"
  shows "\<exists>q. round_double x = of_int q * pow2 (max (exponent x) (- 1022) - 52) \<and> \<bar>q\<bar> \<le> 2 ^ 53"
proof -
  define J where "J = max (exponent x) (- 1022) - 52"
  define q where "q = round_even (x / pow2 J)"
  have r: "round_double x = of_int q * pow2 J"
    using round_double_unfold [OF assms] by (simp only: J_def q_def)
  have "exponent x + 1 \<le> J + 53" by (simp add: J_def)
  then have "pow2 (exponent x + 1) \<le> pow2 (J + 53)" by (simp only: pow2_le)
  with exponent_bounds [OF assms] have "\<bar>x\<bar> < pow2 (J + 53)" by linarith
  then have "\<bar>x\<bar> < pow2 53 * pow2 J" by (simp add: pow2_add mult.commute)
  then have "\<bar>x\<bar> / pow2 J < pow2 53"
    using pow2_pos [of J] by (simp add: pos_divide_less_eq)
  moreover have "\<bar>x / pow2 J\<bar> = \<bar>x\<bar> / pow2 J" using pow2_pos [of J] by simp
  moreover have "pow2 53 = of_int (2 ^ 53)" by (simp add: pow2_def)
  ultimately have "\<bar>x / pow2 J\<bar> \<le> of_int (2 ^ 53)" by linarith
  then have "\<bar>q\<bar> \<le> 2 ^ 53" unfolding q_def by (rule round_even_mono_bound)
  with r show ?thesis unfolding J_def by blast
qed

lemma round_double_idem: "round_double (round_double x) = round_double x"
proof (cases "x = 0")
  case True
  then show ?thesis by (simp add: round_double_def)
next
  case False
  from round_double_rep [OF False] obtain q where
    q: "round_double x = of_int q * pow2 (max (exponent x) (- 1022) - 52)" "\<bar>q\<bar> \<le> 2 ^ 53"
    by blast
  have "- 1074 \<le> max (exponent x) (- 1022) - 52" by simp
  from round_double_fixes [OF q(2) this] show ?thesis by (simp only: q(1))
qed

lemma is_double_round [simp]: "is_double (round_double x)"
  by (simp add: is_double_def round_double_idem)

lemma is_double_rep:
  assumes "is_double x" and "x \<noteq> 0"
  shows "\<exists>q. x = of_int q * pow2 (max (exponent x) (- 1022) - 52) \<and> \<bar>q\<bar> \<le> 2 ^ 53"
  using round_double_rep [OF assms(2)] assms(1) by (simp add: is_double_def)

lemma round_double_err:
  assumes "x \<noteq> 0"
  shows "\<bar>round_double x - x\<bar> \<le> pow2 (max (exponent x) (- 1022) - 52) / 2"
proof -
  define U where "U = pow2 (max (exponent x) (- 1022) - 52)"
  have U: "0 < U" unfolding U_def by (rule pow2_pos)
  have "round_double x - x = (of_int (round_even (x / U)) - x / U) * U"
    using round_double_unfold [OF assms] U by (simp add: U_def algebra_simps)
  then have "\<bar>round_double x - x\<bar> = \<bar>of_int (round_even (x / U)) - x / U\<bar> * U"
    using U by (simp add: abs_mult)
  also have "\<dots> \<le> (1 / 2) * U"
    using round_even_err [of "x / U"] U by (intro mult_right_mono) simp_all
  finally show ?thesis by (simp add: U_def)
qed

lemma round_double_nonpos: "x \<le> 0 \<Longrightarrow> round_double x \<le> 0"
proof (cases "x = 0")
  case True
  then show ?thesis by (simp add: round_double_def)
next
  case False
  assume le: "x \<le> 0"
  define U where "U = pow2 (max (exponent x) (- 1022) - 52)"
  have U: "0 < U" unfolding U_def by (rule pow2_pos)
  from le U have "x / U \<le> 0" by (simp add: divide_nonpos_pos)
  with round_even_err [of "x / U"] have "(of_int (round_even (x / U)) :: real) < 1"
    by linarith
  then have "(of_int (round_even (x / U)) :: real) < of_int 1" by simp
  then have "round_even (x / U) < 1" by (simp only: of_int_less_iff)
  then have "(of_int (round_even (x / U)) :: real) \<le> 0" by simp
  then have "of_int (round_even (x / U)) * U \<le> 0"
    using U by (simp add: mult_le_0_iff)
  then show ?thesis using round_double_unfold [OF False] by (simp only: U_def)
qed

lemma round_double_exact_diff:
  assumes d: "is_double b" and pos: "0 < b" and lt: "b < 9007199254740992"
    and le: "\<bar>b - of_int a\<bar> \<le> b"
  shows "round_double (b - of_int a) = b - of_int a"
proof -
  define J where "J = max (exponent b) (- 1022) - 52"
  from pos have b0: "b \<noteq> 0" by simp
  from is_double_rep [OF d b0] obtain q where
    q: "b = of_int q * pow2 J" "\<bar>q\<bar> \<le> 2 ^ 53"
    unfolding J_def by blast
  have J: "0 < pow2 J" by (rule pow2_pos)
  have "pow2 53 = 9007199254740992" by (simp add: pow2_def)
  with lt pos have "\<bar>b\<bar> < pow2 53" by simp
  from exponent_less [OF b0 this] have J0: "J \<le> 0" by (simp add: J_def)
  define d where "d = nat (0 - J)"
  from pow2_diff_nat [OF J0] have one: "1 = pow2 J * 2 ^ d"
    by (simp add: d_def pow2_zero)
  define m where "m = q - a * 2 ^ d"
  have "of_int a = of_int a * (pow2 J * 2 ^ d)" by (simp only: one [symmetric] mult_1_right)
  also have "\<dots> = of_int (a * 2 ^ d) * pow2 J" by simp
  finally have a: "of_int a = of_int (a * 2 ^ d) * pow2 J" .
  have "b - of_int a = of_int q * pow2 J - of_int (a * 2 ^ d) * pow2 J"
    using q(1) a by simp
  also have "\<dots> = of_int m * pow2 J"
    by (simp only: m_def of_int_diff left_diff_distrib)
  finally have bm: "b - of_int a = of_int m * pow2 J" .
  from le have "\<bar>of_int m * pow2 J\<bar> \<le> of_int q * pow2 J"
    by (simp only: bm [symmetric] q(1) [symmetric])
  then have "of_int \<bar>m\<bar> * pow2 J \<le> of_int q * pow2 J"
    using J by (simp add: abs_mult)
  then have "(of_int \<bar>m\<bar> :: real) \<le> of_int q"
    using J by (simp only: mult_le_cancel_right_pos)
  then have "\<bar>m\<bar> \<le> q" by (simp only: of_int_le_iff)
  with q(2) have m: "\<bar>m\<bar> \<le> 2 ^ 53" by linarith
  have "- 1074 \<le> J" by (simp add: J_def)
  from round_double_fixes [OF m this] show ?thesis by (simp only: bm)
qed

lemma round_double_upper:
  assumes "0 < x" "x < 4294967296"
  shows "round_double x \<le> x + 1 / 4194304"
proof -
  from assms have x0: "x \<noteq> 0" by simp
  have "pow2 32 = 4294967296" by (simp add: pow2_def)
  with assms have "\<bar>x\<bar> < pow2 32" by simp
  from exponent_less [OF x0 this]
  have "max (exponent x) (- 1022) - 52 \<le> - 21" by simp
  then have "pow2 (max (exponent x) (- 1022) - 52) \<le> pow2 (- 21)" by (simp only: pow2_le)
  moreover have "pow2 (- 21) = 1 / 2097152" by (simp add: pow2_def)
  ultimately have "pow2 (max (exponent x) (- 1022) - 52) / 2 \<le> 1 / 4194304" by simp
  with round_double_err [OF x0] show ?thesis by linarith
qed


lemma round_double_large:
  assumes "4294967296 \<le> x"
  shows "2147483648 \<le> round_double x"
proof -
  from assms have x0: "x \<noteq> 0" and xp: "0 < x" by simp_all
  define e where "e = exponent x"
  have p32: "pow2 32 = 4294967296" by (simp add: pow2_def)
  with assms have "pow2 32 \<le> \<bar>x\<bar>" by simp
  from exponent_ge [OF x0 this] have e: "32 \<le> e" by (simp add: e_def)
  then have "max e (- 1022) - 52 = e + (- 52)" by simp
  then have "pow2 (max e (- 1022) - 52) = pow2 e * pow2 (- 52)" by (simp only: pow2_add)
  moreover have "pow2 (- 52) \<le> 1" by (simp add: pow2_def)
  moreover have "0 < pow2 e" by (rule pow2_pos)
  ultimately have "pow2 (max e (- 1022) - 52) \<le> pow2 e"
    by (simp add: mult_le_cancel_left1)
  moreover from exponent_bounds [OF x0] xp have "pow2 e \<le> x" by (simp add: e_def)
  ultimately have "pow2 (max (exponent x) (- 1022) - 52) / 2 \<le> x / 2" by (simp add: e_def)
  with round_double_err [OF x0] have "x / 2 \<le> round_double x" by linarith
  with assms show ?thesis by linarith
qed

lemma epsilon_value: "0 < round_double 0.0001 \<and> round_double 0.0001 \<le> 100001 / 1000000000"
  by code_simp

lemma funds_bound:
  assumes f: "int_of_double (round_double (b + round_double 0.0001)) = Some funds"
  shows "b < 4294967296" and "of_int funds \<le> max 0 (b + 101 / 1000000)"
proof -
  define x where "x = b + round_double 0.0001"
  from f have r: "round_double x < 2147483648"
    and fv: "funds = (if 0 \<le> round_double x then \<lfloor>round_double x\<rfloor> else \<lceil>round_double x\<rceil>)"
    by (auto simp add: int_of_double_def x_def split: if_splits)
  from r round_double_large [of x] have x32: "x < 4294967296" by linarith
  with epsilon_value show "b < 4294967296" by (simp add: x_def)
  show "of_int funds \<le> max 0 (b + 101 / 1000000)"
  proof (cases "0 < x")
    case True
    from round_double_upper [OF True x32] epsilon_value
    have u: "round_double x \<le> b + 101 / 1000000" by (simp add: x_def)
    show ?thesis
    proof (cases "0 \<le> round_double x")
      case True
      with fv have "of_int funds \<le> round_double x" by simp
      with u show ?thesis by linarith
    next
      case False
      with fv have "funds = \<lceil>round_double x\<rceil>" by simp
      moreover from False have "\<lceil>round_double x\<rceil> \<le> 0" by (simp add: ceiling_le_iff)
      ultimately have "(of_int funds :: real) \<le> 0" by simp
      then show ?thesis by linarith
    qed
  next
    case False
    then have "round_double x \<le> 0" by (intro round_double_nonpos) simp
    then have "\<lfloor>round_double x\<rfloor> \<le> 0" "\<lceil>round_double x\<rceil> \<le> 0"
      by (simp_all add: floor_le_iff ceiling_le_iff)
    with fv have "funds \<le> 0" by (simp split: if_splits)
    then have "(of_int funds :: real) \<le> 0" by simp
    then show ?thesis by linarith
  qed
qed

lemma int_of_double_nonneg:
  "0 \<le> x \<Longrightarrow> int_of_double x = Some n \<Longrightarrow> 0 \<le> n"
  by (auto simp add: int_of_double_def split: if_splits)

text \<open>
  The subtraction of a committed withdrawal is exact: the amount is at most the balance
  plus the tolerance, so that the difference lies on the grid of the balance.
\<close>

lemma debit_exact:
  assumes d: "is_double b"
    and f: "int_of_double (round_double (b + round_double 0.0001)) = Some funds"
    and a: "0 \<le> amount" "amount \<le> funds"
  shows "round_double (b - of_int amount) = b - of_int amount"
proof (cases "amount = 0")
  case True
  with d show ?thesis by (simp add: is_double_def)
next
  case False
  with a(1) have "1 \<le> amount" by simp
  then have one: "(1::real) \<le> of_int amount" by simp
  from a(2) have "(of_int amount :: real) \<le> of_int funds" by simp
  with funds_bound(2) [OF f] have ub: "of_int amount \<le> max 0 (b + 101 / 1000000)" by linarith
  with one have ab: "of_int amount \<le> b + 101 / 1000000" by linarith
  with one have pos: "0 < b" and "\<bar>b - of_int amount\<bar> \<le> b" by linarith+
  moreover from funds_bound(1) [OF f] have "b < 9007199254740992" by simp
  ultimately show ?thesis using d by (intro round_double_exact_diff)
qed

section \<open>Properties of withdrawCash\<close>

lemma withdrawCash_invalid:
  "damount \<le> 0 \<Longrightarrow> withdrawCash acc atm damount confirm p = Some (Invalid_amount, acc, atm, [])"
  by (simp add: withdrawCash_def)

lemma withdrawCash_undefined_amount:
  "0 < damount \<Longrightarrow> int_of_double damount = None \<Longrightarrow>
   withdrawCash acc atm damount confirm p = None"
  by (simp add: withdrawCash_def)

lemma withdrawCash_not_multiple:
  "0 < damount \<Longrightarrow> int_of_double damount = Some amount \<Longrightarrow> c_mod amount 100 \<noteq> 0 \<Longrightarrow>
   withdrawCash acc atm damount confirm p = Some (Not_multiple_of_100, acc, atm, [])"
  by (simp add: withdrawCash_def)

lemma withdrawCash_undefined_funds:
  "0 < damount \<Longrightarrow> int_of_double damount = Some amount \<Longrightarrow> c_mod amount 100 = 0 \<Longrightarrow>
   int_of_double (round_double (balance acc + round_double 0.0001)) = None \<Longrightarrow>
   withdrawCash acc atm damount confirm p = None"
  by (simp add: withdrawCash_def)

lemma withdrawCash_validated:
  "0 < damount \<Longrightarrow> int_of_double damount = Some amount \<Longrightarrow> c_mod amount 100 = 0 \<Longrightarrow>
   int_of_double (round_double (balance acc + round_double 0.0001)) = Some funds \<Longrightarrow>
   withdrawCash acc atm damount confirm p =
     (if amount > funds then Some (Insufficient_balance, acc, atm, [])
      else if amount > note2000 atm * 2000 + note500 atm * 500
                         + note200 atm * 200 + note100 atm * 100
        then Some (ATM_not_enough_cash, acc, atm, [])
      else if possible (calculateDenominations amount atm p) = 0
        then Some (Cannot_dispense, acc, atm, [])
      else if confirm = 0 then Some (Cancelled, acc, atm, [])
      else Some (Successful,
        acc\<lparr>balance := round_double (balance acc - of_int amount)\<rparr>,
        atm\<lparr>note2000 := note2000 atm - n2000 (calculateDenominations amount atm p),
            note500 := note500 atm - n500 (calculateDenominations amount atm p),
            note200 := note200 atm - n200 (calculateDenominations amount atm p),
            note100 := note100 atm - n100 (calculateDenominations amount atm p)\<rparr>,
        [\<lparr>txn_accountNumber = accountNumber acc, txn_type = ''Withdrawal'',
          txn_amount = of_int amount,
          txn_remainingBalance = round_double (balance acc - of_int amount)\<rparr>]))"
  by (simp add: withdrawCash_def Let_def)


lemma withdrawCash_cases:
  assumes wd: "withdrawCash acc atm damount confirm p = Some (st, acc', atm', txns)"
  obtains
    (rejected) "st \<noteq> Successful" "acc' = acc" "atm' = atm" "txns = []"
  | (committed) amount funds where
      "st = Successful" "0 < damount" "int_of_double damount = Some amount"
      "c_mod amount 100 = 0" "int_of_double (round_double (balance acc + round_double 0.0001)) = Some funds"
      "amount \<le> funds"
      "amount \<le> note2000 atm * 2000 + note500 atm * 500 + note200 atm * 200 + note100 atm * 100"
      "possible (calculateDenominations amount atm p) \<noteq> 0" "confirm \<noteq> 0"
      "acc' = acc\<lparr>balance := round_double (balance acc - of_int amount)\<rparr>"
      "atm' = atm\<lparr>note2000 := note2000 atm - n2000 (calculateDenominations amount atm p),
                   note500 := note500 atm - n500 (calculateDenominations amount atm p),
                   note200 := note200 atm - n200 (calculateDenominations amount atm p),
                   note100 := note100 atm - n100 (calculateDenominations amount atm p)\<rparr>"
      "txns = [\<lparr>txn_accountNumber = accountNumber acc, txn_type = ''Withdrawal'',
                txn_amount = of_int amount,
                txn_remainingBalance = round_double (balance acc - of_int amount)\<rparr>]"
proof (cases "damount \<le> 0")
  case True
  with wd show ?thesis by (intro rejected) (simp_all add: withdrawCash_invalid)
next
  case False
  then have pos: "0 < damount" by simp
  with wd obtain amount where a: "int_of_double damount = Some amount"
    by (cases "int_of_double damount") (simp_all add: withdrawCash_undefined_amount)
  show ?thesis
  proof (cases "c_mod amount 100 = 0")
    case False
    with wd pos a show ?thesis by (intro rejected) (simp_all add: withdrawCash_not_multiple)
  next
    case True
    with wd pos a obtain funds where f: "int_of_double (round_double (balance acc + round_double 0.0001)) = Some funds"
      by (cases "int_of_double (round_double (balance acc + round_double 0.0001))")
         (simp_all add: withdrawCash_undefined_funds)
    note v = withdrawCash_validated [OF pos a True f, of atm confirm p]
    consider "amount > funds"
      | "amount \<le> funds" "amount > note2000 atm * 2000 + note500 atm * 500
                         + note200 atm * 200 + note100 atm * 100"
      | "amount \<le> funds" "amount \<le> note2000 atm * 2000 + note500 atm * 500
                         + note200 atm * 200 + note100 atm * 100"
        "possible (calculateDenominations amount atm p) = 0"
      | "amount \<le> funds" "amount \<le> note2000 atm * 2000 + note500 atm * 500
                         + note200 atm * 200 + note100 atm * 100"
        "possible (calculateDenominations amount atm p) \<noteq> 0" "confirm = 0"
      | "amount \<le> funds" "amount \<le> note2000 atm * 2000 + note500 atm * 500
                         + note200 atm * 200 + note100 atm * 100"
        "possible (calculateDenominations amount atm p) \<noteq> 0" "confirm \<noteq> 0"
      by linarith
    then show ?thesis
    proof cases
      case 1
      with wd v show ?thesis by (intro rejected) simp_all
    next
      case 2
      with wd v show ?thesis by (intro rejected) simp_all
    next
      case 3
      with wd v show ?thesis by (intro rejected) simp_all
    next
      case 4
      with wd v show ?thesis by (intro rejected) simp_all
    next
      case 5
      with wd v show ?thesis
        by (intro committed [of amount funds] pos a True f) simp_all
    qed
  qed
qed


text \<open>
  \<open>withdrawCash\<close> returns whenever the request and the balance plus the tolerance are
  within the range in which the conversion to \<open>int\<close> is defined.
\<close>

lemma withdrawCash_returns:
  assumes "damount < 2147483648"
    and "- 2147483649 < round_double (balance acc + round_double 0.0001)" "round_double (balance acc + round_double 0.0001) < 2147483648"
  shows "\<exists>res. withdrawCash acc atm damount confirm p = Some res"
proof (cases "damount \<le> 0")
  case True
  then show ?thesis by (simp add: withdrawCash_invalid)
next
  case False
  with assms(1) obtain amount where a: "int_of_double damount = Some amount"
    by (simp add: int_of_double_def)
  from assms(2,3) obtain funds where f: "int_of_double (round_double (balance acc + round_double 0.0001)) = Some funds"
    by (simp add: int_of_double_def)
  from False have pos: "0 < damount" by simp
  show ?thesis
  proof (cases "c_mod amount 100 = 0")
    case True
    from withdrawCash_validated [OF pos a True f, of atm confirm p] show ?thesis by simp
  next
    case False
    from withdrawCash_not_multiple [OF pos a False, of acc atm confirm p] show ?thesis by simp
  qed
qed

subsection \<open>The two debits\<close>

text \<open>
  Claim C3. Take a request on which \<open>withdrawCash\<close> returns, an inventory without negative
  counts and a balance that is a double. The request ends with the successful transaction
  exactly when it passes every test: the amount is positive, it is a multiple of 100, it
  does not exceed the balance plus the tolerance, it does not exceed the cash in the
  machine, \<open>calculateDenominations\<close> reports a plan possible, and the customer confirms.
  Then the account is the one before with the balance lowered by exactly the amount (the
  double subtraction does not round), and the inventory is the one before with every count
  lowered by the plan's count, none of them below zero. In every other case, that is as soon
  as one of the tests fails, the account and the inventory are exactly as before and no
  transaction is recorded. So the two debits are applied together or not at all.
\<close>

theorem withdrawCash_all_or_nothing:
  assumes "withdrawCash acc atm damount confirm p = Some (st, acc', atm', txns)"
    and "nonneg_inventory atm" and "is_double (balance acc)"
  shows
    "(st = Successful \<longleftrightarrow>
        0 < damount \<and> confirm \<noteq> 0 \<and>
        (\<exists>amount funds.
           int_of_double damount = Some amount \<and> c_mod amount 100 = 0 \<and>
           int_of_double (round_double (balance acc + round_double 0.0001)) = Some funds \<and>
           amount \<le> funds \<and>
           amount \<le> note2000 atm * 2000 + note500 atm * 500
                      + note200 atm * 200 + note100 atm * 100 \<and>
           possible (calculateDenominations amount atm p) \<noteq> 0)) \<and>
     (st = Successful \<longrightarrow>
        (\<exists>amount.
           int_of_double damount = Some amount \<and>
           acc' = acc\<lparr>balance := balance acc - of_int amount\<rparr> \<and>
           atm' = atm\<lparr>note2000 := note2000 atm - n2000 (calculateDenominations amount atm p),
                       note500 := note500 atm - n500 (calculateDenominations amount atm p),
                       note200 := note200 atm - n200 (calculateDenominations amount atm p),
                       note100 := note100 atm - n100 (calculateDenominations amount atm p)\<rparr> \<and>
           nonneg_inventory atm')) \<and>
     (st \<noteq> Successful \<longrightarrow> acc' = acc \<and> atm' = atm \<and> txns = [])"
proof -
  have passes: "st = Successful \<longleftrightarrow>
        0 < damount \<and> confirm \<noteq> 0 \<and>
        (\<exists>amount funds.
           int_of_double damount = Some amount \<and> c_mod amount 100 = 0 \<and>
           int_of_double (round_double (balance acc + round_double 0.0001)) = Some funds \<and>
           amount \<le> funds \<and>
           amount \<le> note2000 atm * 2000 + note500 atm * 500
                      + note200 atm * 200 + note100 atm * 100 \<and>
           possible (calculateDenominations amount atm p) \<noteq> 0)"
  proof
    assume s: "st = Successful"
    from assms(1) s show "0 < damount \<and> confirm \<noteq> 0 \<and>
        (\<exists>amount funds.
           int_of_double damount = Some amount \<and> c_mod amount 100 = 0 \<and>
           int_of_double (round_double (balance acc + round_double 0.0001)) = Some funds \<and>
           amount \<le> funds \<and>
           amount \<le> note2000 atm * 2000 + note500 atm * 500
                      + note200 atm * 200 + note100 atm * 100 \<and>
           possible (calculateDenominations amount atm p) \<noteq> 0)"
    proof (cases rule: withdrawCash_cases)
      case rejected
      with s show ?thesis by simp
    next
      case (committed amount funds)
      then show ?thesis by blast
    qed
  next
    assume "0 < damount \<and> confirm \<noteq> 0 \<and>
        (\<exists>amount funds.
           int_of_double damount = Some amount \<and> c_mod amount 100 = 0 \<and>
           int_of_double (round_double (balance acc + round_double 0.0001)) = Some funds \<and>
           amount \<le> funds \<and>
           amount \<le> note2000 atm * 2000 + note500 atm * 500
                      + note200 atm * 200 + note100 atm * 100 \<and>
           possible (calculateDenominations amount atm p) \<noteq> 0)"
    then obtain amount funds where t:
      "0 < damount" "confirm \<noteq> 0" "int_of_double damount = Some amount"
      "c_mod amount 100 = 0"
      "int_of_double (round_double (balance acc + round_double 0.0001)) = Some funds"
      "amount \<le> funds"
      "amount \<le> note2000 atm * 2000 + note500 atm * 500
                 + note200 atm * 200 + note100 atm * 100"
      "possible (calculateDenominations amount atm p) \<noteq> 0"
      by blast
    from withdrawCash_validated [OF t(1,3,4,5), of atm confirm p] t(2,6,7,8) assms(1)
    show "st = Successful" by simp
  qed
  have debits: "st = Successful \<longrightarrow>
        (\<exists>amount.
           int_of_double damount = Some amount \<and>
           acc' = acc\<lparr>balance := balance acc - of_int amount\<rparr> \<and>
           atm' = atm\<lparr>note2000 := note2000 atm - n2000 (calculateDenominations amount atm p),
                       note500 := note500 atm - n500 (calculateDenominations amount atm p),
                       note200 := note200 atm - n200 (calculateDenominations amount atm p),
                       note100 := note100 atm - n100 (calculateDenominations amount atm p)\<rparr> \<and>
           nonneg_inventory atm')"
  proof
    assume s: "st = Successful"
    from assms(1) s show "\<exists>amount.
           int_of_double damount = Some amount \<and>
           acc' = acc\<lparr>balance := balance acc - of_int amount\<rparr> \<and>
           atm' = atm\<lparr>note2000 := note2000 atm - n2000 (calculateDenominations amount atm p),
                       note500 := note500 atm - n500 (calculateDenominations amount atm p),
                       note200 := note200 atm - n200 (calculateDenominations amount atm p),
                       note100 := note100 atm - n100 (calculateDenominations amount atm p)\<rparr> \<and>
           nonneg_inventory atm'"
    proof (cases rule: withdrawCash_cases)
      case rejected
      with s show ?thesis by simp
    next
      case (committed amount funds)
      from committed(2) have "0 \<le> damount" by simp
      from int_of_double_nonneg [OF this committed(3)] have a0: "0 \<le> amount" .
      from debit_exact [OF assms(3) committed(5) a0 committed(6)]
      have "acc' = acc\<lparr>balance := balance acc - of_int amount\<rparr>"
        by (simp only: committed(10))
      moreover from plan_le_inventory [OF committed(8)] committed(11) assms(2)
      have "nonneg_inventory atm'" by (simp add: nonneg_inventory_def)
      ultimately show ?thesis using committed(3,11) by blast
    qed
  qed
  have unchanged: "st \<noteq> Successful \<longrightarrow> acc' = acc \<and> atm' = atm \<and> txns = []"
  proof
    assume n: "st \<noteq> Successful"
    from assms(1) show "acc' = acc \<and> atm' = atm \<and> txns = []"
    proof (cases rule: withdrawCash_cases)
      case rejected
      then show ?thesis by simp
    next
      case (committed amount funds)
      with n show ?thesis by simp
    qed
  qed
  show ?thesis by (rule conjI [OF passes conjI [OF debits unchanged]])
qed

theorem withdrawCash_all_or_nothing_witness:
  "withdrawCash
     \<lparr>accountNumber = 1001, pin = 1234, balance = 15000, name = ''Zaid'',
      loginAttempts = 0, locked = 0\<rparr>
     \<lparr>note2000 = 10, note500 = 20, note200 = 50, note100 = 100\<rparr> 2300 1 7
   = Some (Successful,
       \<lparr>accountNumber = 1001, pin = 1234, balance = 12700, name = ''Zaid'',
        loginAttempts = 0, locked = 0\<rparr>,
       \<lparr>note2000 = 9, note500 = 20, note200 = 49, note100 = 99\<rparr>,
       [\<lparr>txn_accountNumber = 1001, txn_type = ''Withdrawal'', txn_amount = 2300,
         txn_remainingBalance = 12700\<rparr>]) \<and>
   withdrawCash
     \<lparr>accountNumber = 1001, pin = 1234, balance = 15000, name = ''Zaid'',
      loginAttempts = 0, locked = 0\<rparr>
     \<lparr>note2000 = 10, note500 = 20, note200 = 50, note100 = 100\<rparr> 2300 0 7
   = Some (Cancelled,
       \<lparr>accountNumber = 1001, pin = 1234, balance = 15000, name = ''Zaid'',
      loginAttempts = 0, locked = 0\<rparr>,
       \<lparr>note2000 = 10, note500 = 20, note200 = 50, note100 = 100\<rparr>, []) \<and>
   nonneg_inventory \<lparr>note2000 = 10, note500 = 20, note200 = 50, note100 = 100\<rparr> \<and>
   is_double 15000 \<and>
   (\<exists>amount funds.
      int_of_double 2300 = Some amount \<and> c_mod amount 100 = 0 \<and>
      int_of_double (round_double (15000 + round_double 0.0001)) = Some funds \<and>
      amount \<le> funds \<and>
      amount \<le> 10 * 2000 + 20 * 500 + 50 * 200 + 100 * 100 \<and>
      possible (calculateDenominations amount
        \<lparr>note2000 = 10, note500 = 20, note200 = 50, note100 = 100\<rparr> 7) \<noteq> 0)"
proof -
  have e: "withdrawCash
     \<lparr>accountNumber = 1001, pin = 1234, balance = 15000, name = ''Zaid'',
      loginAttempts = 0, locked = 0\<rparr>
     \<lparr>note2000 = 10, note500 = 20, note200 = 50, note100 = 100\<rparr> 2300 1 7
   = Some (Successful,
       \<lparr>accountNumber = 1001, pin = 1234, balance = 12700, name = ''Zaid'',
        loginAttempts = 0, locked = 0\<rparr>,
       \<lparr>note2000 = 9, note500 = 20, note200 = 49, note100 = 99\<rparr>,
       [\<lparr>txn_accountNumber = 1001, txn_type = ''Withdrawal'', txn_amount = 2300,
         txn_remainingBalance = 12700\<rparr>])"
    by code_simp
  have c: "withdrawCash
     \<lparr>accountNumber = 1001, pin = 1234, balance = 15000, name = ''Zaid'',
      loginAttempts = 0, locked = 0\<rparr>
     \<lparr>note2000 = 10, note500 = 20, note200 = 50, note100 = 100\<rparr> 2300 0 7
   = Some (Cancelled,
       \<lparr>accountNumber = 1001, pin = 1234, balance = 15000, name = ''Zaid'',
      loginAttempts = 0, locked = 0\<rparr>,
       \<lparr>note2000 = 10, note500 = 20, note200 = 50, note100 = 100\<rparr>, [])"
    by code_simp
  have n: "nonneg_inventory \<lparr>note2000 = 10, note500 = 20, note200 = 50, note100 = 100\<rparr>"
    by code_simp
  have d: "is_double (balance \<lparr>accountNumber = 1001, pin = 1234, balance = 15000, name = ''Zaid'',
      loginAttempts = 0, locked = 0\<rparr>)"
    by code_simp
  from d have d': "is_double 15000" by simp
  from withdrawCash_all_or_nothing [OF e n d]
  have x: "(\<exists>amount funds.
      int_of_double 2300 = Some amount \<and> c_mod amount 100 = 0 \<and>
      int_of_double (round_double (15000 + round_double 0.0001)) = Some funds \<and>
      amount \<le> funds \<and>
      amount \<le> 10 * 2000 + 20 * 500 + 50 * 200 + 100 * 100 \<and>
      possible (calculateDenominations amount
        \<lparr>note2000 = 10, note500 = 20, note200 = 50, note100 = 100\<rparr> 7) \<noteq> 0)"
    by (simp only: Account.select_convs ATM.select_convs) blast
  from withdrawCash_all_or_nothing [OF c n d]
  have "Cancelled \<noteq> Successful \<longrightarrow>
    \<lparr>accountNumber = 1001, pin = 1234, balance = 15000, name = ''Zaid'',
      loginAttempts = 0, locked = 0\<rparr> = \<lparr>accountNumber = 1001, pin = 1234, balance = 15000, name = ''Zaid'',
      loginAttempts = 0, locked = 0\<rparr>"
    by blast
  with e c n d' x show ?thesis by (intro conjI)
qed

subsection \<open>Validation of the amount\<close>

text \<open>
  On a request that is a whole number the two tests are exact: the request is rejected as
  invalid exactly when it is not positive, and as no multiple of 100 exactly when it is
  positive and 100 does not divide it.
\<close>

lemma int_of_double_of_int:
  "- 2147483648 \<le> k \<Longrightarrow> k \<le> 2147483647 \<Longrightarrow> int_of_double (of_int k) = Some k"
proof -
  assume "- 2147483648 \<le> k" "k \<le> 2147483647"
  then have "- 2147483649 < k" "k < 2147483648" by simp_all
  then have "(of_int (- 2147483649) :: real) < of_int k" "(of_int k :: real) < of_int 2147483648"
    by (simp_all only: of_int_less_iff)
  then have "(- 2147483649 :: real) < of_int k" "(of_int k :: real) < 2147483648"
    by simp_all
  then show ?thesis by (simp add: int_of_double_def)
qed

lemma withdrawCash_validation_whole:
  assumes "k \<le> 2147483647"
    and "withdrawCash acc atm (of_int k) confirm p = Some (st, acc', atm', txns)"
  shows "(st = Invalid_amount \<longleftrightarrow> k \<le> 0) \<and>
         (st = Not_multiple_of_100 \<longleftrightarrow> 0 < k \<and> k mod 100 \<noteq> 0)"
proof (cases "k \<le> 0")
  case True
  with assms(2) show ?thesis by (simp add: withdrawCash_invalid)
next
  case False
  then have pos: "(0::real) < of_int k" by simp
  from False assms(1) have a: "int_of_double (of_int k) = Some k"
    by (intro int_of_double_of_int) simp_all
  from False have m: "c_mod k 100 = k mod 100" by (simp add: c_mod_nonneg)
  show ?thesis
  proof (cases "k mod 100 = 0")
    case nm: False
    with assms(2) withdrawCash_not_multiple [OF pos a, of acc atm confirm p] m False
    show ?thesis by simp
  next
    case True
    with m have cm: "c_mod k 100 = 0" by simp
    from assms(2) obtain funds where f: "int_of_double (round_double (balance acc + round_double 0.0001)) = Some funds"
      using withdrawCash_undefined_funds [OF pos a cm, of acc atm confirm p]
      by (cases "int_of_double (round_double (balance acc + round_double 0.0001))") simp_all
    from assms(2) withdrawCash_validated [OF pos a cm f, of atm confirm p]
    have "st \<noteq> Invalid_amount \<and> st \<noteq> Not_multiple_of_100"
      by (auto split: if_splits)
    with False True show ?thesis by simp
  qed
qed

text \<open>
  Claim C9 fails on the code. The sign is tested on the \<open>double\<close> and the remainder on its
  truncation: the request 0.5 passes both tests with the amount 0, which is not positive,
  and ends as a successful withdrawal of nothing; the request 100.5, no multiple of 100,
  passes as the amount 100.
\<close>

theorem fractional_amount_passes_validation:
  "withdrawCash
     \<lparr>accountNumber = 1001, pin = 1234, balance = 15000, name = ''Zaid'',
      loginAttempts = 0, locked = 0\<rparr>
     \<lparr>note2000 = 10, note500 = 20, note200 = 50, note100 = 100\<rparr> (1 / 2) 1 0
   = Some (Successful,
       \<lparr>accountNumber = 1001, pin = 1234, balance = 15000, name = ''Zaid'',
        loginAttempts = 0, locked = 0\<rparr>,
       \<lparr>note2000 = 10, note500 = 20, note200 = 50, note100 = 100\<rparr>,
       [\<lparr>txn_accountNumber = 1001, txn_type = ''Withdrawal'', txn_amount = 0,
         txn_remainingBalance = 15000\<rparr>]) \<and>
   withdrawCash
     \<lparr>accountNumber = 1001, pin = 1234, balance = 15000, name = ''Zaid'',
      loginAttempts = 0, locked = 0\<rparr>
     \<lparr>note2000 = 10, note500 = 20, note200 = 50, note100 = 100\<rparr> (201 / 2) 1 0
   = Some (Successful,
       \<lparr>accountNumber = 1001, pin = 1234, balance = 14900, name = ''Zaid'',
        loginAttempts = 0, locked = 0\<rparr>,
       \<lparr>note2000 = 10, note500 = 20, note200 = 50, note100 = 99\<rparr>,
       [\<lparr>txn_accountNumber = 1001, txn_type = ''Withdrawal'', txn_amount = 100,
         txn_remainingBalance = 14900\<rparr>])"
  by code_simp

section \<open>Accounts: what login and the unlock leave unchanged\<close>

lemma findAccountIndex_Some:
  "findAccountIndex accounts accNum = Some idx \<Longrightarrow>
     idx < length accounts \<and> accountNumber (accounts ! idx) = accNum"
proof (induction accounts arbitrary: idx)
  case Nil
  then show ?case by simp
next
  case (Cons a accounts)
  show ?case
  proof (cases "accountNumber a = accNum")
    case True
    with Cons.prems show ?thesis by simp
  next
    case False
    with Cons.prems obtain j where "findAccountIndex accounts accNum = Some j" "idx = Suc j"
      by auto
    with Cons.IH [of j] show ?thesis by simp
  qed
qed

lemma findAccountIndex_cong:
  "map accountNumber accounts' = map accountNumber accounts \<Longrightarrow>
     findAccountIndex accounts' accNum = findAccountIndex accounts accNum"
proof (induction accounts arbitrary: accounts')
  case Nil
  then show ?case by simp
next
  case (Cons a accounts)
  then obtain b bs where "accounts' = b # bs" "accountNumber b = accountNumber a"
    "map accountNumber bs = map accountNumber accounts"
    by (cases accounts') auto
  with Cons.IH [of bs] show ?case by simp
qed


lemma map_update_same: "(map f xs)[i := f (xs ! i)] = map f xs"
  by (cases "i < length xs") (simp_all add: list_update_same_conv list_update_beyond)


lemma adminMenu_unlock_frame:
  "map balance (adminMenu_unlock accounts accn) = map balance accounts"
  "map accountNumber (adminMenu_unlock accounts accn) = map accountNumber accounts"
  by (simp_all add: adminMenu_unlock_def map_update map_update_same split: option.splits)


subsection \<open>The balance\<close>






section \<open>Properties of the inventory\<close>

text \<open>
  A committed withdrawal keeps non-negative counts non-negative, and so does a refill as
  long as no new count exceeds the largest \<open>int\<close>; a refill with a negative number changes
  nothing.
\<close>

lemma withdrawCash_inventory_nonneg:
  assumes "withdrawCash acc atm damount confirm p = Some (st, acc', atm', txns)"
    and "0 \<le> note2000 atm" "0 \<le> note500 atm" "0 \<le> note200 atm" "0 \<le> note100 atm"
  shows "0 \<le> note2000 atm' \<and> 0 \<le> note500 atm' \<and> 0 \<le> note200 atm' \<and> 0 \<le> note100 atm'"
  using assms(1)
proof (cases rule: withdrawCash_cases)
  case rejected
  with assms show ?thesis by simp
next
  case (committed amount funds)
  from plan_le_inventory [OF committed(8)] committed(11) show ?thesis by simp
qed

lemma wrap32_id: "- 2147483648 \<le> x \<Longrightarrow> x \<le> 2147483647 \<Longrightarrow> wrap32 x = x"
  by (simp add: wrap32_def)

lemma adminMenu_refill_rejects:
  "a < 0 \<or> b < 0 \<or> c < 0 \<or> d < 0 \<Longrightarrow> adminMenu_refill atm a b c d = atm"
  by (simp add: adminMenu_refill_def)

lemma adminMenu_refill_in_range:
  assumes "0 \<le> note2000 atm" "0 \<le> note500 atm" "0 \<le> note200 atm" "0 \<le> note100 atm"
    and "note2000 atm + a \<le> 2147483647" "note500 atm + b \<le> 2147483647"
      "note200 atm + c \<le> 2147483647" "note100 atm + d \<le> 2147483647"
  shows "0 \<le> note2000 (adminMenu_refill atm a b c d) \<and>
    0 \<le> note500 (adminMenu_refill atm a b c d) \<and>
    0 \<le> note200 (adminMenu_refill atm a b c d) \<and>
    0 \<le> note100 (adminMenu_refill atm a b c d)"
proof (cases "a < 0 \<or> b < 0 \<or> c < 0 \<or> d < 0")
  case True
  with assms show ?thesis by (simp add: adminMenu_refill_rejects)
next
  case False
  with assms show ?thesis by (simp add: adminMenu_refill_def wrap32_id)
qed

text \<open>
  Claim C7 fails on the code. The refill tests only the sign of the four numbers; the sum
  \<open>atm.note2000 += a\<close> of the non-negative count 2147483647 and the non-negative
  number 1 does not fit \<open>int\<close>, and the count stored is negative.
\<close>

theorem refill_overflows:
  "adminMenu_refill \<lparr>note2000 = 2147483647, note500 = 20, note200 = 50, note100 = 100\<rparr> 1 0 0 0
     = \<lparr>note2000 = - 2147483648, note500 = 20, note200 = 50, note100 = 100\<rparr>"
  by code_simp


text \<open>The refill and the unlock as runs of the menu.\<close>

lemma adminMenu_refill_run:
  "adminMenu (accounts, atm) [ADMIN_PIN, 2, a, b, c, d, 5]
     = Some (accounts, adminMenu_refill atm a b c d)"
  by (simp add: adminMenu_def)

lemma adminMenu_unlock_run:
  "adminMenu (accounts, atm) [ADMIN_PIN, 4, accn, 5]
     = Some (adminMenu_unlock accounts accn, atm)"
  by (simp add: adminMenu_def)

lemma adminMenu_wrong_pin:
  "entered \<noteq> ADMIN_PIN \<Longrightarrow> adminMenu st (entered # inputs) = Some st"
  by (simp add: adminMenu_def)

section \<open>Properties of login\<close>

lemma login_loop_locks:
  assumes "0 \<le> loginAttempts acc" "loginAttempts acc < 3"
    and "length wrong = nat (3 - loginAttempts acc)" "\<forall>w\<in>set wrong. w \<noteq> pin acc"
  shows "login_loop acc (wrong @ rest) = Some (False, acc\<lparr>loginAttempts := 3, locked := 1\<rparr>)"
  using assms
proof (induction wrong arbitrary: acc)
  case Nil
  then show ?case by simp
next
  case (Cons w ws)
  from Cons.prems(4) have w: "w \<noteq> pin acc" by simp
  show ?case
  proof (cases "loginAttempts acc = 2")
    case True
    with w show ?thesis by (simp add: Let_def)
  next
    case False
    let ?acc = "acc\<lparr>loginAttempts := loginAttempts acc + 1\<rparr>"
    from False Cons.prems(1,2) have lt: "loginAttempts acc < 2" by simp
    with Cons.prems have "login_loop ?acc (ws @ rest)
        = Some (False, ?acc\<lparr>loginAttempts := 3, locked := 1\<rparr>)"
      by (intro Cons.IH) (simp_all add: nat_diff_distrib')
    with w lt show ?thesis by (simp add: Let_def)
  qed
qed

lemma login_locked:
  assumes "findAccountIndex accounts accNum = Some idx" "locked (accounts ! idx) \<noteq> 0"
  shows "login accounts accNum pins = Some (Account_is_locked, accounts)"
  using assms by (simp add: login_def)

text \<open>
  Claim C8. For an unlocked account with \<open>c\<close> mismatches counted since the last successful
  login (\<open>0 \<le> c < 3\<close>), \<open>3 - c\<close> further wrong PINs set the lock flag, and \<open>login\<close> on the
  state so reached is rejected whatever PINs are typed. While the flag is set \<open>login\<close> is
  rejected, whatever the PINs, and changes nothing. The administrative unlock clears the
  flag and resets the counter to zero, after which the correct PIN logs in.
\<close>

theorem lockout:
  "(findAccountIndex accounts accNum = Some idx \<and> locked (accounts ! idx) = 0 \<and>
    0 \<le> loginAttempts (accounts ! idx) \<and> loginAttempts (accounts ! idx) < 3 \<and>
    length wrong = nat (3 - loginAttempts (accounts ! idx)) \<and>
    (\<forall>w\<in>set wrong. w \<noteq> pin (accounts ! idx)) \<longrightarrow>
      login accounts accNum (wrong @ rest)
        = Some (Locked_after_3_failed_attempts,
                accounts[idx := (accounts ! idx)\<lparr>loginAttempts := 3, locked := 1\<rparr>]) \<and>
      login (accounts[idx := (accounts ! idx)\<lparr>loginAttempts := 3, locked := 1\<rparr>]) accNum pins
        = Some (Account_is_locked,
                accounts[idx := (accounts ! idx)\<lparr>loginAttempts := 3, locked := 1\<rparr>])) \<and>
   (findAccountIndex accounts accNum = Some idx \<and> locked (accounts ! idx) \<noteq> 0 \<longrightarrow>
      login accounts accNum pins = Some (Account_is_locked, accounts)) \<and>
   (findAccountIndex accounts accNum = Some idx \<longrightarrow>
      locked (adminMenu_unlock accounts accNum ! idx) = 0 \<and>
      loginAttempts (adminMenu_unlock accounts accNum ! idx) = 0 \<and>
      login (adminMenu_unlock accounts accNum) accNum (pin (accounts ! idx) # pins)
        = Some (Login_successful idx, adminMenu_unlock accounts accNum))"
proof (intro conjI impI)
  assume a: "findAccountIndex accounts accNum = Some idx \<and> locked (accounts ! idx) = 0 \<and>
    0 \<le> loginAttempts (accounts ! idx) \<and> loginAttempts (accounts ! idx) < 3 \<and>
    length wrong = nat (3 - loginAttempts (accounts ! idx)) \<and>
    (\<forall>w\<in>set wrong. w \<noteq> pin (accounts ! idx))"
  let ?locked = "accounts[idx := (accounts ! idx)\<lparr>loginAttempts := 3, locked := 1\<rparr>]"
  from a have f: "findAccountIndex accounts accNum = Some idx" by simp
  from findAccountIndex_Some [OF f] have idx: "idx < length accounts" by simp
  from a have "login_loop (accounts ! idx) (wrong @ rest)
      = Some (False, (accounts ! idx)\<lparr>loginAttempts := 3, locked := 1\<rparr>)"
    by (intro login_loop_locks) simp_all
  with a show "login accounts accNum (wrong @ rest)
      = Some (Locked_after_3_failed_attempts, ?locked)"
    by (simp add: login_def)
  have "map accountNumber ?locked = map accountNumber accounts"
    by (simp add: map_update map_update_same)
  from findAccountIndex_cong [OF this, of accNum] f
  have "findAccountIndex ?locked accNum = Some idx" by simp
  moreover from idx have "locked (?locked ! idx) \<noteq> 0" by simp
  ultimately show "login ?locked accNum pins = Some (Account_is_locked, ?locked)"
    by (rule login_locked)
next
  assume "findAccountIndex accounts accNum = Some idx \<and> locked (accounts ! idx) \<noteq> 0"
  then show "login accounts accNum pins = Some (Account_is_locked, accounts)"
    by (simp add: login_locked)
next
  assume f: "findAccountIndex accounts accNum = Some idx"
  from findAccountIndex_Some [OF f] have idx: "idx < length accounts" by simp
  let ?unlocked = "adminMenu_unlock accounts accNum"
  have u: "?unlocked = accounts[idx := (accounts ! idx)\<lparr>locked := 0, loginAttempts := 0\<rparr>]"
    using f by (simp add: adminMenu_unlock_def)
  from u idx show "locked (?unlocked ! idx) = 0" by simp
  from u idx show "loginAttempts (?unlocked ! idx) = 0" by simp
  from findAccountIndex_cong [OF adminMenu_unlock_frame(2), of accounts accNum accNum] f
  have "findAccountIndex ?unlocked accNum = Some idx" by simp
  moreover have "?unlocked ! idx = (accounts ! idx)\<lparr>locked := 0, loginAttempts := 0\<rparr>"
    using u idx by simp
  ultimately show "login ?unlocked accNum (pin (accounts ! idx) # pins)
      = Some (Login_successful idx, ?unlocked)"
    using u idx by (simp add: login_def)
qed

theorem lockout_witness:
  "findAccountIndex
     [\<lparr>accountNumber = 1001, pin = 1234, balance = 15000, name = ''Zaid'', loginAttempts = 0, locked = 0\<rparr>,
      \<lparr>accountNumber = 1002, pin = 2345, balance = 5000, name = ''Anita'', loginAttempts = 0, locked = 0\<rparr>] 1002 = Some 1 \<and>
   login
     [\<lparr>accountNumber = 1001, pin = 1234, balance = 15000, name = ''Zaid'', loginAttempts = 0, locked = 0\<rparr>,
      \<lparr>accountNumber = 1002, pin = 2345, balance = 5000, name = ''Anita'', loginAttempts = 0, locked = 0\<rparr>] 1002 [1111, 2222, 3333]
   = Some (Locked_after_3_failed_attempts,
     [\<lparr>accountNumber = 1001, pin = 1234, balance = 15000, name = ''Zaid'', loginAttempts = 0, locked = 0\<rparr>,
      \<lparr>accountNumber = 1002, pin = 2345, balance = 5000, name = ''Anita'', loginAttempts = 3, locked = 1\<rparr>]) \<and>
   login
     [\<lparr>accountNumber = 1001, pin = 1234, balance = 15000, name = ''Zaid'', loginAttempts = 0, locked = 0\<rparr>,
      \<lparr>accountNumber = 1002, pin = 2345, balance = 5000, name = ''Anita'', loginAttempts = 3, locked = 1\<rparr>] 1002 [2345]
   = Some (Account_is_locked,
     [\<lparr>accountNumber = 1001, pin = 1234, balance = 15000, name = ''Zaid'', loginAttempts = 0, locked = 0\<rparr>,
      \<lparr>accountNumber = 1002, pin = 2345, balance = 5000, name = ''Anita'', loginAttempts = 3, locked = 1\<rparr>]) \<and>
   adminMenu_unlock
     [\<lparr>accountNumber = 1001, pin = 1234, balance = 15000, name = ''Zaid'', loginAttempts = 0, locked = 0\<rparr>,
      \<lparr>accountNumber = 1002, pin = 2345, balance = 5000, name = ''Anita'', loginAttempts = 3, locked = 1\<rparr>] 1002
   = [\<lparr>accountNumber = 1001, pin = 1234, balance = 15000, name = ''Zaid'', loginAttempts = 0, locked = 0\<rparr>,
      \<lparr>accountNumber = 1002, pin = 2345, balance = 5000, name = ''Anita'', loginAttempts = 0, locked = 0\<rparr>] \<and>
   login
     [\<lparr>accountNumber = 1001, pin = 1234, balance = 15000, name = ''Zaid'', loginAttempts = 0, locked = 0\<rparr>,
      \<lparr>accountNumber = 1002, pin = 2345, balance = 5000, name = ''Anita'', loginAttempts = 0, locked = 0\<rparr>] 1002 [2345]
   = Some (Login_successful 1,
     [\<lparr>accountNumber = 1001, pin = 1234, balance = 15000, name = ''Zaid'', loginAttempts = 0, locked = 0\<rparr>,
      \<lparr>accountNumber = 1002, pin = 2345, balance = 5000, name = ''Anita'', loginAttempts = 0, locked = 0\<rparr>])"
proof -
  have f: "findAccountIndex
     [\<lparr>accountNumber = 1001, pin = 1234, balance = 15000, name = ''Zaid'', loginAttempts = 0, locked = 0\<rparr>,
      \<lparr>accountNumber = 1002, pin = 2345, balance = 5000, name = ''Anita'', loginAttempts = 0, locked = 0\<rparr>] 1002 = Some 1"
    by code_simp
  have f': "findAccountIndex
     [\<lparr>accountNumber = 1001, pin = 1234, balance = 15000, name = ''Zaid'', loginAttempts = 0, locked = 0\<rparr>,
      \<lparr>accountNumber = 1002, pin = 2345, balance = 5000, name = ''Anita'', loginAttempts = 3, locked = 1\<rparr>] 1002 = Some 1"
    by code_simp
  have u: "adminMenu_unlock
     [\<lparr>accountNumber = 1001, pin = 1234, balance = 15000, name = ''Zaid'', loginAttempts = 0, locked = 0\<rparr>,
      \<lparr>accountNumber = 1002, pin = 2345, balance = 5000, name = ''Anita'', loginAttempts = 3, locked = 1\<rparr>] 1002
   = [\<lparr>accountNumber = 1001, pin = 1234, balance = 15000, name = ''Zaid'', loginAttempts = 0, locked = 0\<rparr>,
      \<lparr>accountNumber = 1002, pin = 2345, balance = 5000, name = ''Anita'', loginAttempts = 0, locked = 0\<rparr>]"
    by code_simp
  from lockout [of "[\<lparr>accountNumber = 1001, pin = 1234, balance = 15000, name = ''Zaid'', loginAttempts = 0, locked = 0\<rparr>,
      \<lparr>accountNumber = 1002, pin = 2345, balance = 5000, name = ''Anita'', loginAttempts = 0, locked = 0\<rparr>]" 1002 1 "[1111, 2222, 3333]" "[]" "[2345]"] f
  have a: "login
     [\<lparr>accountNumber = 1001, pin = 1234, balance = 15000, name = ''Zaid'', loginAttempts = 0, locked = 0\<rparr>,
      \<lparr>accountNumber = 1002, pin = 2345, balance = 5000, name = ''Anita'', loginAttempts = 0, locked = 0\<rparr>] 1002 [1111, 2222, 3333]
   = Some (Locked_after_3_failed_attempts,
     [\<lparr>accountNumber = 1001, pin = 1234, balance = 15000, name = ''Zaid'', loginAttempts = 0, locked = 0\<rparr>,
      \<lparr>accountNumber = 1002, pin = 2345, balance = 5000, name = ''Anita'', loginAttempts = 3, locked = 1\<rparr>])"
    "login
     [\<lparr>accountNumber = 1001, pin = 1234, balance = 15000, name = ''Zaid'', loginAttempts = 0, locked = 0\<rparr>,
      \<lparr>accountNumber = 1002, pin = 2345, balance = 5000, name = ''Anita'', loginAttempts = 3, locked = 1\<rparr>] 1002 [2345]
   = Some (Account_is_locked,
     [\<lparr>accountNumber = 1001, pin = 1234, balance = 15000, name = ''Zaid'', loginAttempts = 0, locked = 0\<rparr>,
      \<lparr>accountNumber = 1002, pin = 2345, balance = 5000, name = ''Anita'', loginAttempts = 3, locked = 1\<rparr>])"
    by simp_all
  from lockout [of "[\<lparr>accountNumber = 1001, pin = 1234, balance = 15000, name = ''Zaid'', loginAttempts = 0, locked = 0\<rparr>,
      \<lparr>accountNumber = 1002, pin = 2345, balance = 5000, name = ''Anita'', loginAttempts = 3, locked = 1\<rparr>]" 1002 1 "[]" "[]" "[]"] f' u
  have b: "login
     [\<lparr>accountNumber = 1001, pin = 1234, balance = 15000, name = ''Zaid'', loginAttempts = 0, locked = 0\<rparr>,
      \<lparr>accountNumber = 1002, pin = 2345, balance = 5000, name = ''Anita'', loginAttempts = 0, locked = 0\<rparr>] 1002 [2345]
   = Some (Login_successful 1,
     [\<lparr>accountNumber = 1001, pin = 1234, balance = 15000, name = ''Zaid'', loginAttempts = 0, locked = 0\<rparr>,
      \<lparr>accountNumber = 1002, pin = 2345, balance = 5000, name = ''Anita'', loginAttempts = 0, locked = 0\<rparr>])"
    by simp
  from f a u b show ?thesis by simp
qed

end
